theory Spec2Isabelle
  imports Complex_Main
begin

section \<open>Python strings and library operations\<close>

text \<open>
  A Python \<open>str\<close> is modelled as a \<^typ>\<open>string\<close>: a list of characters, each standing
  for the code point of the same number (0 to 255). The character classes below are
  those of CPython's \<open>str.isspace\<close>, and of \<open>\s\<close>, \<open>\w\<close> and \<open>\d\<close> of the \<open>re\<close>
  module on \<open>str\<close> patterns, restricted to these code points.
\<close>

definition nl :: char where
  "nl = CHR 0x0A"

definition cp :: "char \<Rightarrow> nat" where
  "cp c = of_char c"

definition is_space :: "char \<Rightarrow> bool" where
  "is_space c = (let n = cp c in (9 \<le> n \<and> n \<le> 13) \<or> (28 \<le> n \<and> n \<le> 32) \<or> n = 133 \<or> n = 160)"

definition is_upper :: "char \<Rightarrow> bool" where
  "is_upper c = (let n = cp c in 65 \<le> n \<and> n \<le> 90)"

definition is_lower :: "char \<Rightarrow> bool" where
  "is_lower c = (let n = cp c in 97 \<le> n \<and> n \<le> 122)"

definition is_alpha :: "char \<Rightarrow> bool" where
  "is_alpha c = (is_upper c \<or> is_lower c)"

definition is_digit :: "char \<Rightarrow> bool" where
  "is_digit c = (let n = cp c in 48 \<le> n \<and> n \<le> 57)"

definition is_word :: "char \<Rightarrow> bool" where
  "is_word c = (let n = cp c in
     is_alpha c \<or> is_digit c \<or> n = 95 \<or> n = 170 \<or> n = 178 \<or> n = 179 \<or> n = 181 \<or> n = 185 \<or>
     n = 186 \<or> (188 \<le> n \<and> n \<le> 190) \<or> (192 \<le> n \<and> n \<le> 214) \<or> (216 \<le> n \<and> n \<le> 246) \<or>
     248 \<le> n)"

text \<open>\<open>s.lstrip()\<close>, \<open>s.rstrip()\<close>, \<open>s.strip()\<close> and \<open>s.lstrip("\n")\<close>.\<close>

definition str_lstrip :: "string \<Rightarrow> string" where
  "str_lstrip s = dropWhile is_space s"

definition str_rstrip :: "string \<Rightarrow> string" where
  "str_rstrip s = rev (dropWhile is_space (rev s))"

definition str_strip :: "string \<Rightarrow> string" where
  "str_strip s = str_rstrip (str_lstrip s)"

definition str_lstrip_nl :: "string \<Rightarrow> string" where
  "str_lstrip_nl s = dropWhile (\<lambda>c. c = nl) s"

text \<open>\<open>s.split("\n")\<close>: the pieces between newlines, at least one piece.\<close>

fun str_split_nl :: "string \<Rightarrow> string list" where
  "str_split_nl [] = [[]]"
| "str_split_nl (c # cs) =
     (if c = nl then [] # str_split_nl cs
      else (case str_split_nl cs of
              l # ls \<Rightarrow> (c # l) # ls
            | [] \<Rightarrow> [[c]]))"

text \<open>\<open>sep.join(xs)\<close>.\<close>

fun str_join :: "string \<Rightarrow> string list \<Rightarrow> string" where
  "str_join sep [] = []"
| "str_join sep [x] = x"
| "str_join sep (x # y # ys) = x @ sep @ str_join sep (y # ys)"

text \<open>\<open>s.startswith(p)\<close> and \<open>p in s\<close>.\<close>

fun str_startswith :: "string \<Rightarrow> string \<Rightarrow> bool" where
  "str_startswith s [] = True"
| "str_startswith [] (p # ps) = False"
| "str_startswith (c # cs) (p # ps) = (c = p \<and> str_startswith cs ps)"

fun str_contains :: "string \<Rightarrow> string \<Rightarrow> bool" where
  "str_contains [] p = (p = [])"
| "str_contains (c # cs) p = (str_startswith (c # cs) p \<or> str_contains cs p)"

text \<open>
  \<open>s.lower()\<close> and \<open>s.title()\<close> on ASCII text. The program applies them to section
  header labels only, which its header patterns restrict to ASCII letters, digits,
  spaces, hyphens, apostrophes and slashes.
\<close>

definition chr_lower :: "char \<Rightarrow> char" where
  "chr_lower c = (if is_upper c then char_of (cp c + 32) else c)"

definition chr_upper :: "char \<Rightarrow> char" where
  "chr_upper c = (if is_lower c then char_of (cp c - 32) else c)"

definition str_lower :: "string \<Rightarrow> string" where
  "str_lower s = map chr_lower s"

fun title_from :: "bool \<Rightarrow> string \<Rightarrow> string" where
  "title_from previous_is_cased [] = []"
| "title_from previous_is_cased (c # cs) =
     (if previous_is_cased then chr_lower c else chr_upper c) # title_from (is_alpha c) cs"

definition str_title :: "string \<Rightarrow> string" where
  "str_title s = title_from False s"

text \<open>\<open>s.replace(a, b)\<close> for single characters \<open>a\<close>, and for \<open>b\<close> a character or empty.\<close>

definition str_replace_chr :: "char \<Rightarrow> char \<Rightarrow> string \<Rightarrow> string" where
  "str_replace_chr a b s = map (\<lambda>c. if c = a then b else c) s"

definition str_remove_chr :: "char \<Rightarrow> string \<Rightarrow> string" where
  "str_remove_chr a s = filter (\<lambda>c. c \<noteq> a) s"

text \<open>
  The exceptions the program's operations can raise: a missing dictionary key, and
  \<open>int(s)\<close> on a digit string longer than the interpreter's limit (CPython 3.11 and
  later, and the security releases of 3.7 to 3.10 from September 2022:
  \<open>sys.int_max_str_digits\<close>, 4300 by default).
\<close>

datatype py_error = KeyError | ValueError

definition int_max_str_digits :: nat where
  "int_max_str_digits = 4300"

definition digit_val :: "char \<Rightarrow> int" where
  "digit_val c = int (cp c) - 48"

definition py_int :: "string \<Rightarrow> py_error + int" where
  "py_int ds =
     (if length ds > int_max_str_digits then Inl ValueError
      else Inr (foldl (\<lambda>acc c. 10 * acc + digit_val c) 0 ds))"

text \<open>\<open>str(n)\<close> for a non-negative integer, as an f-string formats it.\<close>

fun str_of_nat :: "nat \<Rightarrow> string" where
  "str_of_nat n =
     (if n < 10 then [char_of (48 + n)]
      else str_of_nat (n div 10) @ [char_of (48 + n mod 10)])"

declare str_of_nat.simps [simp del]

section \<open>Collapsing a repeated block\<close>

text \<open>
  \<open>extract_repeated_block\<close>: the loop over \<open>range(1, n // 2 + 1)\<close> is the recursion of
  \<open>block_search\<close> over the list of sizes; the slice \<open>lines[i * size : (i + 1) * size]\<close>
  is \<open>take sz (drop (i * sz) lines)\<close>.
\<close>

fun block_search :: "'a list \<Rightarrow> nat list \<Rightarrow> 'a list \<times> nat" where
  "block_search lines [] = (lines, 1)"
| "block_search lines (sz # sizes) =
     (let n = length lines in
      if n mod sz \<noteq> 0 then block_search lines sizes
      else
        let block = take sz lines; count = n div sz in
        if list_all (\<lambda>i. take sz (drop (i * sz) lines) = block) [0..<count]
        then (block, count)
        else block_search lines sizes)"

definition extract_repeated_block :: "'a list \<Rightarrow> 'a list \<times> nat" where
  "extract_repeated_block lines =
     (let n = length lines in
      if n = 0 then (lines, 1) else block_search lines [1..<n div 2 + 1])"

text \<open>
  The specification's reading of a block size: \<open>s\<close> is between 1 and \<open>n / 2\<close>, divides
  \<open>n\<close>, and the lines are the first \<open>s\<close> lines repeated \<open>n / s\<close> times.
\<close>

definition repeats_with :: "'a list \<Rightarrow> nat \<Rightarrow> bool" where
  "repeats_with lines s =
     (1 \<le> s \<and> s \<le> length lines div 2 \<and> length lines mod s = 0 \<and>
      lines = concat (replicate (length lines div s) (take s lines)))"

section \<open>Key detection\<close>

text \<open>
  \<open>CHORD_RE\<close> is
  \<^verbatim>\<open>\b(?P<root>[A-G](?:#|b)?)(?P<qual>maj7|maj|...|maj9)?(?:/[A-G](?:#|b)?)?\b\<close>.
  Each part of the pattern is modelled by the list of the strings it can consume at the
  head of the text, in the order in which the backtracking matcher tries them (an
  optional part tries its content before the empty string, an alternation tries its
  branches from left to right). A position is given by the character before it, if any,
  and the text from it on.
\<close>

definition is_note :: "char \<Rightarrow> bool" where
  "is_note c = (let n = cp c in 65 \<le> n \<and> n \<le> 71)"

definition word_boundary :: "char option \<Rightarrow> string \<Rightarrow> bool" where
  "word_boundary prev s =
     ((case prev of None \<Rightarrow> False | Some c \<Rightarrow> is_word c) \<noteq>
      (case s of [] \<Rightarrow> False | c # _ \<Rightarrow> is_word c))"

definition accidental_alts :: "string \<Rightarrow> string list" where
  "accidental_alts s =
     (case s of
        [] \<Rightarrow> [[]]
      | c # _ \<Rightarrow> if c = CHR ''#'' \<or> c = CHR ''b'' then [[c], []] else [[]])"

definition root_alts :: "string \<Rightarrow> string list" where
  "root_alts s =
     (case s of
        [] \<Rightarrow> []
      | c # r \<Rightarrow> if is_note c then map (\<lambda>a. c # a) (accidental_alts r) else [])"

definition chord_quals :: "string list" where
  "chord_quals =
     [''maj7'', ''maj'', ''min7'', ''m7'', ''m'', ''min'', ''dim'', ''aug'', ''sus2'', ''sus4'',
      ''add9'', ''6'', ''7'', ''9'', ''11'', ''13'', ''m6'', ''m9'', ''maj9'']"

definition qual_alts :: "string \<Rightarrow> string list" where
  "qual_alts s = filter (str_startswith s) chord_quals @ [[]]"

definition bass_alts :: "string \<Rightarrow> string list" where
  "bass_alts s =
     (case s of
        c # d # r \<Rightarrow>
          if c = CHR ''/'' \<and> is_note d then map (\<lambda>a. c # d # a) (accidental_alts r) @ [[]]
          else [[]]
      | _ \<Rightarrow> [[]])"

text \<open>The candidate matches at a position: root, quality (empty when absent), length.\<close>

definition chord_candidates :: "string \<Rightarrow> (string \<times> string \<times> nat) list" where
  "chord_candidates s =
     concat (map (\<lambda>root_name.
       concat (map (\<lambda>qual.
         map (\<lambda>bass. (root_name, qual, length root_name + length qual + length bass))
           (bass_alts (drop (length root_name + length qual) s)))
         (qual_alts (drop (length root_name) s))))
       (root_alts s))"

definition chord_at :: "char option \<Rightarrow> string \<Rightarrow> (string \<times> string \<times> nat) option" where
  "chord_at prev s =
     (if word_boundary prev s
      then find (\<lambda>(root_name, qual, n). 0 < n \<and> word_boundary (Some (s ! (n - 1))) (drop n s))
             (chord_candidates s)
      else None)"

text \<open>
  \<open>CHORD_RE.finditer(body)\<close>: the matches from left to right, each search starting where
  the previous match ended. \<open>skip\<close> counts the characters of the last match still to
  pass over.
\<close>

fun chord_scan :: "char option \<Rightarrow> string \<Rightarrow> nat \<Rightarrow> (string \<times> string) list" where
  "chord_scan prev [] skip = []"
| "chord_scan prev (c # cs) skip =
     (if 0 < skip then chord_scan (Some c) cs (skip - 1)
      else (case chord_at prev (c # cs) of
              None \<Rightarrow> chord_scan (Some c) cs 0
            | Some (root_name, qual, n) \<Rightarrow> (root_name, qual) # chord_scan (Some c) cs (n - 1)))"

definition chord_matches :: "string \<Rightarrow> (string \<times> string) list" where
  "chord_matches body = chord_scan None body 0"

text \<open>
  A dictionary with string keys keeps its insertion order; \<open>d[k] = d.get(k, 0) + 1\<close> is
  \<open>dict_incr\<close>.
\<close>

fun dict_incr :: "('k \<times> nat) list \<Rightarrow> 'k \<Rightarrow> ('k \<times> nat) list" where
  "dict_incr [] k = [(k, 1)]"
| "dict_incr ((k', v) # d) k = (if k' = k then (k', v + 1) # d else (k', v) # dict_incr d k)"

definition dict_get :: "('k \<times> 'v) list \<Rightarrow> 'k \<Rightarrow> 'v \<Rightarrow> 'v" where
  "dict_get d k dflt = (case map_of d k of None \<Rightarrow> dflt | Some v \<Rightarrow> v)"

definition count_chord ::
  "(string \<times> nat) list \<times> (string \<times> nat) list \<Rightarrow> string \<times> string \<Rightarrow>
   (string \<times> nat) list \<times> (string \<times> nat) list" where
  "count_chord counts m =
     (case (counts, m) of
        ((root_counts, minor_counts), (root_name, qual)) \<Rightarrow>
          let is_minor = (str_startswith qual ''m'' \<and> \<not> str_startswith qual ''maj'') in
          (dict_incr root_counts root_name,
           if is_minor then dict_incr minor_counts root_name else minor_counts))"

text \<open>\<open>max(items, key=...)\<close> returns the first of the maximal items.\<close>

fun py_max_by :: "('a \<Rightarrow> nat) \<Rightarrow> 'a \<Rightarrow> 'a list \<Rightarrow> 'a" where
  "py_max_by f best [] = best"
| "py_max_by f best (x # xs) = py_max_by f (if f best < f x then x else best) xs"

text \<open>
  The test \<open>minor_hits / total_hits >= 0.5\<close> on the true quotient of two counts is
  \<open>total_hits \<le> 2 * minor_hits\<close>.
\<close>

definition detect_key :: "string \<Rightarrow> py_error + string" where
  "detect_key body =
     (case foldl count_chord ([], []) (chord_matches body) of
        (root_counts, minor_counts) \<Rightarrow>
          (case root_counts of
             [] \<Rightarrow> Inr []
           | item # items \<Rightarrow>
               let best_root = fst (py_max_by snd item items);
                   minor_hits = dict_get minor_counts best_root 0
               in (case map_of root_counts best_root of
                     None \<Rightarrow> Inl KeyError
                   | Some total_hits \<Rightarrow>
                       Inr (if 0 < total_hits \<and> total_hits \<le> 2 * minor_hits
                            then best_root @ ''m'' else best_root))))"

section \<open>Classifying a section header\<close>

text \<open>
  \<open>re.match(r"^(.*?)(?:\s+(\d+))?$", name)\<close>. \<open>tail_number\<close> is the optional group
  followed by \<open>$\<close> at the head of the text: a run of whitespace, a run of digits, and
  the end of the text (or a last newline). \<open>header_number_match\<close> lets the lazy first
  group grow one character at a time (never over a newline) until the rest matches;
  its result is groups 1 and 2, or \<open>None\<close> when the pattern does not match.
\<close>

definition tail_number :: "string \<Rightarrow> string option" where
  "tail_number s =
     (let ws = takeWhile is_space s;
          ds = takeWhile is_digit (dropWhile is_space s);
          r = dropWhile is_digit (dropWhile is_space s)
      in if ws \<noteq> [] \<and> ds \<noteq> [] \<and> (r = [] \<or> r = [nl]) then Some ds else None)"

fun header_number_match :: "string \<Rightarrow> string \<Rightarrow> (string \<times> string option) option" where
  "header_number_match g [] = Some (g, None)"
| "header_number_match g (c # cs) =
     (case tail_number (c # cs) of
        Some ds \<Rightarrow> Some (g, Some ds)
      | None \<Rightarrow>
          if c # cs = [nl] then Some (g, None)
          else if c = nl then None
          else header_number_match (g @ [c]) cs)"

definition classify_header :: "string \<Rightarrow> string \<times> string" where
  "classify_header base_part =
     (let base = str_strip (str_replace_chr (CHR ''-'') (CHR '' '') (str_lower base_part)) in
      if str_contains base ''pre'' \<and> str_contains base ''chorus'' then (''Pre-Chorus'', ''PC'')
      else if str_startswith base ''verse'' then (''Verse'', ''V'')
      else if str_startswith base ''chorus'' then (''Chorus'', ''C'')
      else if str_startswith base ''intro'' then (''Intro'', ''Intro'')
      else if str_startswith base ''outro'' then (''Outro'', ''Outro'')
      else if str_startswith base ''bridge'' \<or> base = ''b'' then (''Bridge'', ''B'')
      else if str_startswith base ''instrument'' \<or> str_startswith base ''instr''
        then (''Instrumental'', ''Instr'')
      else if str_startswith base ''solo'' then (''Solo'', ''Solo'')
      else if str_startswith base ''tag'' then (''Tag'', ''Tag'')
      else if str_startswith base ''interlude'' then (''Interlude'', ''Interlude'')
      else if str_startswith base ''pre'' then (''Pre-Chorus'', ''PC'')
      else let clean = str_title base_part in (clean, str_remove_chr (CHR '' '') clean))"

definition parse_section_header :: "string \<Rightarrow> py_error + (string \<times> string \<times> int option)" where
  "parse_section_header raw =
     (let name = str_strip raw;
          m = header_number_match [] name;
          base_part = (case m of Some (g, _) \<Rightarrow> str_strip g | None \<Rightarrow> name)
      in (case (case m of
                  Some (_, Some ds) \<Rightarrow> (case py_int ds of Inl e \<Rightarrow> Inl e | Inr v \<Rightarrow> Inr (Some v))
                | _ \<Rightarrow> Inr None) of
            Inl e \<Rightarrow> Inl e
          | Inr num \<Rightarrow>
              (case classify_header base_part of
                 (type_name, prefix) \<Rightarrow> Inr (type_name, prefix, num))))"

section \<open>Section content\<close>

definition normalize_content :: "string list \<Rightarrow> string" where
  "normalize_content content_lines = str_strip (str_join [nl] content_lines)"

definition clean_lines :: "string list \<Rightarrow> string list" where
  "clean_lines content_lines = map str_rstrip content_lines"

definition starts_with_lines :: "string list \<Rightarrow> string list \<Rightarrow> bool" where
  "starts_with_lines candidate prefix =
     (if length candidate < length prefix then False
      else list_all (\<lambda>i. candidate ! i = prefix ! i) [0..<length prefix])"

section \<open>Header extraction\<close>

text \<open>\<open>x or y\<close> on strings: \<open>x\<close> unless it is empty.\<close>

definition str_or :: "string \<Rightarrow> string \<Rightarrow> string" where
  "str_or x y = (if x \<noteq> [] then x else y)"

text \<open>\<open>s.rsplit(".", 1)[0]\<close>: the text before the last dot, or all of it.\<close>

definition rsplit_dot_head :: "string \<Rightarrow> string" where
  "rsplit_dot_head s =
     (if CHR ''.'' \<in> set s then rev (tl (dropWhile (\<lambda>c. c \<noteq> CHR ''.'') (rev s))) else s)"

text \<open>\<open>s.split(sep, 1)\<close> for a non-empty separator; \<open>acc\<close> is the text passed over.\<close>

fun split_once :: "string \<Rightarrow> string \<Rightarrow> string \<Rightarrow> string list" where
  "split_once sep acc [] = [acc]"
| "split_once sep acc (c # cs) =
     (if str_startswith (c # cs) sep then [acc, drop (length sep) (c # cs)]
      else split_once sep (acc @ [c]) cs)"

definition file_artist_title :: "string \<Rightarrow> string \<times> string" where
  "file_artist_title file_base =
     (if file_base \<noteq> [] then
        let base_no_ext = rsplit_dot_head file_base;
            parts = split_once '' - '' [] base_no_ext
        in (case parts of
              [a, b] \<Rightarrow> (str_strip a, str_strip b)
            | _ \<Rightarrow> ([], str_strip base_no_ext))
      else ([], []))"

definition meta_names :: "string list" where
  "meta_names = [''Key'', ''Capo'', ''Tempo'', ''Time'', ''Flow'', ''Tuning'', ''TransposedKey'']"

text \<open>
  \<open>re.match(rf"^{name}:\s*(.*)$", line)\<close>, group 1: after the name and the colon the
  whitespace is passed over, the group takes the text up to the first newline, and
  \<open>$\<close> wants the end of the text there (or a last newline).
\<close>

definition meta_match :: "string \<Rightarrow> string \<Rightarrow> string option" where
  "meta_match name line =
     (if str_startswith line (name @ '':'') then
        let r = dropWhile is_space (drop (length name + 1) line);
            v = takeWhile (\<lambda>c. c \<noteq> nl) r;
            u = dropWhile (\<lambda>c. c \<noteq> nl) r
        in if u = [] \<or> u = [nl] then Some v else None
      else None)"

text \<open>The metadata dictionary: its keys are the seven names, all present from the start.\<close>

type_synonym meta = "string \<Rightarrow> string"

definition read_meta_line :: "string list \<Rightarrow> meta \<Rightarrow> nat \<times> string \<Rightarrow> meta" where
  "read_meta_line lines meta on =
     (case on of
        (offset, name) \<Rightarrow>
          if offset < length lines then
            (case meta_match name (lines ! offset) of
               Some v \<Rightarrow> meta(name := str_strip v)
             | None \<Rightarrow> meta)
          else meta)"

definition read_meta :: "string list \<Rightarrow> meta" where
  "read_meta lines =
     foldl (read_meta_line lines) (\<lambda>name. []) (zip [2..<2 + length meta_names] meta_names)"

definition body_of :: "string list \<Rightarrow> string" where
  "body_of lines =
     (let body_start = 2 + length meta_names;
          body_start = (if body_start < length lines \<and> str_strip (lines ! body_start) = []
                        then body_start + 1 else body_start)
      in str_lstrip_nl (str_join [nl] (drop body_start lines)))"

section \<open>Splitting the body into sections\<close>

text \<open>
  \<open>header_re\<close> is \<^verbatim>\<open>^([A-Za-z][A-Za-z0-9 \-'\/]+):\s*$\<close>; the result is group 1. The
  class does not hold the colon, so the label is the longest run of class characters.
\<close>

definition is_label_chr :: "char \<Rightarrow> bool" where
  "is_label_chr c =
     (is_alpha c \<or> is_digit c \<or> c = CHR '' '' \<or> c = CHR ''-'' \<or> c = CHR 0x27 \<or> c = CHR ''/'')"

definition header_match :: "string \<Rightarrow> string option" where
  "header_match s =
     (case s of
        [] \<Rightarrow> None
      | c # cs \<Rightarrow>
          let label = takeWhile is_label_chr cs; r = dropWhile is_label_chr cs in
          if is_alpha c \<and> label \<noteq> [] \<and> r \<noteq> [] \<and> hd r = CHR '':'' \<and> list_all is_space (tl r)
          then Some (c # label) else None)"

record raw_section =
  sec_header :: string
  sec_lines :: "string list"

record split_state =
  sp_sections :: "raw_section list"
  sp_leading_lines :: "string list"
  sp_current_header :: "string option"
  sp_current_lines :: "string list"
  sp_headers_found :: nat

definition split_line :: "split_state \<Rightarrow> string \<Rightarrow> split_state" where
  "split_line st line =
     (case header_match (str_strip line) of
        Some g \<Rightarrow>
          st\<lparr>sp_headers_found := sp_headers_found st + 1,
             sp_sections :=
               (case sp_current_header st of
                  Some h \<Rightarrow> sp_sections st @ [\<lparr>sec_header = h, sec_lines = sp_current_lines st\<rparr>]
                | None \<Rightarrow> sp_sections st),
             sp_current_header := Some (str_strip g),
             sp_current_lines := []\<rparr>
      | None \<Rightarrow>
          (case sp_current_header st of
             None \<Rightarrow> st\<lparr>sp_leading_lines := sp_leading_lines st @ [line]\<rparr>
           | Some h \<Rightarrow> st\<lparr>sp_current_lines := sp_current_lines st @ [line]\<rparr>))"

definition split_sections :: "string \<Rightarrow> split_state" where
  "split_sections body =
     (let st = foldl split_line
                 \<lparr>sp_sections = [], sp_leading_lines = [], sp_current_header = None,
                  sp_current_lines = [], sp_headers_found = 0\<rparr>
                 (str_split_nl body)
      in (case sp_current_header st of
            Some h \<Rightarrow> st\<lparr>sp_sections := sp_sections st @ [\<lparr>sec_header = h, sec_lines = sp_current_lines st\<rparr>]\<rparr>
          | None \<Rightarrow> st))"

section \<open>Deduplicating sections\<close>

record unique_entry =
  u_key :: string
  u_lines :: "string list"
  u_lines_clean :: "string list"
  u_extension_of :: "nat option"

record type_stat =
  ts_unique :: "unique_entry list"
  ts_prefix :: string
  ts_count :: nat

record occurrence =
  occ_type :: string
  occ_prefix :: string
  occ_unique_idx :: nat
  occ_extension :: bool

record dedup_state =
  dd_type_stats :: "(string \<times> type_stat) list"
  dd_unique_order :: "(string \<times> nat) list"
  dd_occurrences :: "occurrence list"

text \<open>
  The inner loop over \<open>enumerate(stats["unique"], start=1)\<close> that looks for an entry
  already registered as the extension \<open>extension_key\<close> of entry \<open>idx\<close>.
\<close>

fun find_extension :: "nat \<Rightarrow> string \<Rightarrow> nat \<Rightarrow> unique_entry list \<Rightarrow> nat option" where
  "find_extension idx extension_key jdx [] = None"
| "find_extension idx extension_key jdx (uj # ujs) =
     (if u_extension_of uj = Some idx \<and> u_key uj = extension_key then Some jdx
      else find_extension idx extension_key (jdx + 1) ujs)"

text \<open>
  The outer loop over \<open>enumerate(stats["unique"], start=1)\<close>, from entry \<open>idx\<close> on. Its
  result is \<open>match_idx\<close> (\<open>None\<close> when the loop ends without a \<open>break\<close>), the list
  \<open>stats["unique"]\<close> as the loop leaves it, and \<open>extension_created\<close>.
\<close>

fun find_match ::
  "string \<Rightarrow> string list \<Rightarrow> string \<Rightarrow> unique_entry list \<Rightarrow> nat \<Rightarrow> unique_entry list \<Rightarrow>
   nat option \<times> unique_entry list \<times> bool" where
  "find_match type_name content_clean content_key all_unique idx [] = (None, all_unique, False)"
| "find_match type_name content_clean content_key all_unique idx (u # us) =
     (if u_key u = content_key then (Some idx, all_unique, False)
      else if type_name = ''Chorus'' \<and> starts_with_lines content_clean (u_lines_clean u) then
        let extension_lines = drop (length (u_lines_clean u)) content_clean;
            extension_key = str_strip (str_join [nl] extension_lines)
        in if extension_key = [] then (Some idx, all_unique, False)
           else (case find_extension idx extension_key 1 all_unique of
                   Some jdx \<Rightarrow> (Some jdx, all_unique, False)
                 | None \<Rightarrow>
                     (Some (length all_unique + 1),
                      all_unique @ [\<lparr>u_key = extension_key, u_lines = extension_lines,
                                     u_lines_clean = extension_lines,
                                     u_extension_of = Some idx\<rparr>],
                      True))
      else find_match type_name content_clean content_key all_unique (idx + 1) us)"

text \<open>\<open>d.setdefault(k, v)\<close> and the update of the value stored under a present key.\<close>

definition dict_setdefault :: "('k \<times> 'v) list \<Rightarrow> 'k \<Rightarrow> 'v \<Rightarrow> ('k \<times> 'v) list" where
  "dict_setdefault d k v = (case map_of d k of None \<Rightarrow> d @ [(k, v)] | Some _ \<Rightarrow> d)"

definition dict_update :: "('k \<times> 'v) list \<Rightarrow> 'k \<Rightarrow> 'v \<Rightarrow> ('k \<times> 'v) list" where
  "dict_update d k v = map (\<lambda>(k', v'). if k' = k then (k', v) else (k', v')) d"

definition order_add :: "(string \<times> nat) list \<Rightarrow> string \<times> nat \<Rightarrow> (string \<times> nat) list" where
  "order_add order unique_id = (if unique_id \<in> set order then order else order @ [unique_id])"

text \<open>One turn of the loop \<open>for entry in sections\<close>.\<close>

definition dedup_section :: "dedup_state \<Rightarrow> raw_section \<Rightarrow> py_error + dedup_state" where
  "dedup_section st entry =
     (case parse_section_header (sec_header entry) of
        Inl e \<Rightarrow> Inl e
      | Inr (type_name, prefix, _) \<Rightarrow>
          let content_clean_raw = clean_lines (sec_lines entry);
              (base_block, repeat_count) = extract_repeated_block content_clean_raw;
              content_clean = base_block;
              content_key = str_strip (str_join [nl] content_clean);
              stats0 = dict_get
                         (dict_setdefault (dd_type_stats st) type_name
                            \<lparr>ts_unique = [], ts_prefix = prefix, ts_count = 0\<rparr>)
                         type_name \<lparr>ts_unique = [], ts_prefix = prefix, ts_count = 0\<rparr>;
              stats1 = stats0\<lparr>ts_count := ts_count stats0 + repeat_count\<rparr>;
              (found, unique1, extension_created) =
                 find_match type_name content_clean content_key (ts_unique stats1) 1
                   (ts_unique stats1);
              order1 = (if extension_created
                        then order_add (dd_unique_order st) (type_name, length unique1)
                        else dd_unique_order st);
              (match_idx, unique2, order2) =
                 (case found of
                    Some i \<Rightarrow> (i, unique1, order1)
                  | None \<Rightarrow>
                      let unique2 = unique1 @
                            [\<lparr>u_key = content_key, u_lines = content_clean,
                              u_lines_clean = content_clean, u_extension_of = None\<rparr>]
                      in (length unique2, unique2, order_add order1 (type_name, length unique2)))
          in Inr \<lparr>dd_type_stats =
                    dict_update
                      (dict_setdefault (dd_type_stats st) type_name
                         \<lparr>ts_unique = [], ts_prefix = prefix, ts_count = 0\<rparr>)
                      type_name (stats1\<lparr>ts_unique := unique2\<rparr>),
                  dd_unique_order = order2,
                  dd_occurrences = dd_occurrences st @
                    replicate repeat_count
                      \<lparr>occ_type = type_name, occ_prefix = prefix, occ_unique_idx = match_idx,
                       occ_extension = extension_created\<rparr>\<rparr>)"

fun dedup_sections :: "dedup_state \<Rightarrow> raw_section list \<Rightarrow> py_error + dedup_state" where
  "dedup_sections st [] = Inr st"
| "dedup_sections st (entry # entries) =
     (case dedup_section st entry of
        Inl e \<Rightarrow> Inl e
      | Inr st' \<Rightarrow> dedup_sections st' entries)"

section \<open>Numbering and display names\<close>

definition numbering_types :: "string list" where
  "numbering_types = [''Verse'', ''Pre-Chorus'', ''Chorus'', ''Bridge'']"

definition needs_numbering :: "(string \<times> type_stat) list \<Rightarrow> string \<Rightarrow> py_error + bool" where
  "needs_numbering type_stats type_name =
     (case map_of type_stats type_name of
        None \<Rightarrow> Inl KeyError
      | Some stats \<Rightarrow>
          Inr (1 < length (ts_unique stats) \<or>
               (1 < ts_count stats \<and> type_name \<in> set numbering_types)))"

record display_entry =
  de_display_name :: string
  de_token :: string
  de_lines :: "string list"
  de_extension_of :: "nat option"

text \<open>The body of the loop over \<open>enumerate(stats["unique"], start=1)\<close> for one type.\<close>

definition display_entry_of ::
  "string \<Rightarrow> type_stat \<Rightarrow> bool \<Rightarrow> nat \<times> unique_entry \<Rightarrow> (string \<times> nat) \<times> display_entry" where
  "display_entry_of type_name stats number_required iu =
     (case iu of
        (idx, unique) \<Rightarrow>
          let number = (if number_required then Some idx else None);
              number = (if number = None \<and> 1 < ts_count stats \<and> type_name \<in> set numbering_types
                        then Some idx else number);
              truthy = (case number of None \<Rightarrow> False | Some n \<Rightarrow> n \<noteq> 0);
              display_name = (if truthy then type_name @ '' '' @ str_of_nat (the number)
                              else type_name);
              token = (if truthy then ts_prefix stats @ str_of_nat (the number)
                       else ts_prefix stats)
          in ((type_name, idx),
              \<lparr>de_display_name = display_name, de_token = token, de_lines = u_lines unique,
               de_extension_of = u_extension_of unique\<rparr>))"

text \<open>
  The display map: a dictionary keyed by \<open>(type_name, idx)\<close>; a later assignment to a
  key replaces the earlier one, so the entries are kept newest first for \<open>map_of\<close>.
\<close>

fun build_display_map ::
  "(string \<times> type_stat) list \<Rightarrow> (string \<times> type_stat) list \<Rightarrow>
   ((string \<times> nat) \<times> display_entry) list \<Rightarrow> py_error + ((string \<times> nat) \<times> display_entry) list" where
  "build_display_map type_stats [] display_map = Inr display_map"
| "build_display_map type_stats ((type_name, stats) # items) display_map =
     (case needs_numbering type_stats type_name of
        Inl e \<Rightarrow> Inl e
      | Inr number_required \<Rightarrow>
          build_display_map type_stats items
            (rev (map (display_entry_of type_name stats number_required)
                    (zip [1..<length (ts_unique stats) + 1] (ts_unique stats)))
             @ display_map))"

text \<open>The loop that collects \<open>tokens_in_flow\<close>; an entry of the map is a non-empty dictionary.\<close>

definition flow_tokens ::
  "((string \<times> nat) \<times> display_entry) list \<Rightarrow> occurrence list \<Rightarrow> string list" where
  "flow_tokens display_map occs =
     concat (map (\<lambda>occ.
       (case map_of display_map (occ_type occ, occ_unique_idx occ) of
          Some mapping \<Rightarrow> [de_token mapping]
        | None \<Rightarrow> [])) occs)"

section \<open>Assembling the body\<close>

definition section_block :: "display_entry \<Rightarrow> string" where
  "section_block mapping =
     (let section_lines = de_lines mapping;
          header_line = de_display_name mapping @ '':'';
          block_parts = [header_line];
          block_parts =
            (if section_lines \<noteq> [] \<and>
                (length section_lines = 0 \<or> str_strip (section_lines ! 0) \<noteq> [])
             then block_parts @ [[]] else block_parts);
          block_parts = block_parts @ [str_rstrip (str_join [nl] section_lines)]
      in str_join [nl] (filter (\<lambda>part. part \<noteq> []) block_parts))"

fun section_blocks ::
  "((string \<times> nat) \<times> display_entry) list \<Rightarrow> (string \<times> nat) list \<Rightarrow> py_error + string list" where
  "section_blocks display_map [] = Inr []"
| "section_blocks display_map (unique_id # ids) =
     (case map_of display_map unique_id of
        None \<Rightarrow> Inl KeyError
      | Some mapping \<Rightarrow>
          (case section_blocks display_map ids of
             Inl e \<Rightarrow> Inl e
           | Inr blocks \<Rightarrow> Inr (section_block mapping # blocks)))"

definition leading_blocks :: "string list \<Rightarrow> string list" where
  "leading_blocks leading_lines =
     (if leading_lines \<noteq> [] then
        let leading = str_rstrip (str_join [nl] leading_lines) in
        if leading \<noteq> [] then [leading] else []
      else [])"

definition join_blocks :: "string list \<Rightarrow> string" where
  "join_blocks body_blocks =
     str_rstrip (str_join [nl, nl] (filter (\<lambda>blocks. str_strip blocks \<noteq> []) body_blocks)) @ [nl]"

text \<open>
  The structured branch (\<open>headers_found > 0\<close>): the new body and the flow tokens, with
  the registries they are computed from.
\<close>

record structured =
  s_state :: dedup_state
  s_display_map :: "((string \<times> nat) \<times> display_entry) list"
  s_tokens :: "string list"
  s_body :: string

definition structure_body :: "split_state \<Rightarrow> py_error + structured" where
  "structure_body sp =
     (case dedup_sections \<lparr>dd_type_stats = [], dd_unique_order = [], dd_occurrences = []\<rparr> (sp_sections sp) of
        Inl e \<Rightarrow> Inl e
      | Inr st \<Rightarrow>
          (case build_display_map (dd_type_stats st) (dd_type_stats st) [] of
             Inl e \<Rightarrow> Inl e
           | Inr display_map \<Rightarrow>
               (case section_blocks display_map (dd_unique_order st) of
                  Inl e \<Rightarrow> Inl e
                | Inr blocks \<Rightarrow>
                    Inr \<lparr>s_state = st, s_display_map = display_map,
                         s_tokens = flow_tokens display_map (dd_occurrences st),
                         s_body = join_blocks (leading_blocks (sp_leading_lines sp) @ blocks)\<rparr>)))"

section \<open>The flow of a body without section headers\<close>

text \<open>
  \<^verbatim>\<open>re.match(r"^([A-Za-z ]+):\s*$", s)\<close>, group 1, and \<open>ch.isdigit()\<close>.
\<close>

definition simple_header_match :: "string \<Rightarrow> string option" where
  "simple_header_match s =
     (let label = takeWhile (\<lambda>c. is_alpha c \<or> c = CHR '' '') s;
          r = dropWhile (\<lambda>c. is_alpha c \<or> c = CHR '' '') s
      in if label \<noteq> [] \<and> r \<noteq> [] \<and> hd r = CHR '':'' \<and> list_all is_space (tl r)
         then Some label else None)"

definition chr_isdigit :: "char \<Rightarrow> bool" where
  "chr_isdigit c = (let n = cp c in is_digit c \<or> n = 178 \<or> n = 179 \<or> n = 185)"

definition fallback_token :: "string \<Rightarrow> string option" where
  "fallback_token name =
     (let low = str_lower name;
          num = str_or (filter chr_isdigit name) ''1''
      in if str_startswith low ''intro'' then Some ''Intro''
         else if str_startswith low ''verse'' then Some (''V'' @ num)
         else if str_contains low ''pre'' then Some (''PC'' @ num)
         else if str_contains low ''chorus'' then Some (''C'' @ num)
         else if str_contains low ''bridge'' \<or> low = ''b'' then Some ''B''
         else if str_contains low ''solo'' then Some ''Solo''
         else if str_contains low ''outro'' then Some ''Outro''
         else if str_contains low ''tag'' then Some ''Tag''
         else None)"

definition fallback_line :: "string list \<Rightarrow> string \<Rightarrow> string list" where
  "fallback_line section_tokens line =
     (if str_strip line = [] then section_tokens
      else (case simple_header_match (str_strip line) of
              None \<Rightarrow> section_tokens
            | Some g \<Rightarrow>
                (case fallback_token (str_strip g) of
                   None \<Rightarrow> section_tokens
                 | Some token \<Rightarrow>
                     if token \<noteq> [] \<and> token \<notin> set section_tokens
                     then section_tokens @ [token] else section_tokens)))"

definition fallback_tokens :: "string \<Rightarrow> string list" where
  "fallback_tokens body = foldl fallback_line [] (str_split_nl body)"

section \<open>The transformation\<close>

record rebuilt_parts =
  r_title :: string
  r_artist :: string
  r_meta :: meta
  r_body :: string

definition default_meta :: "meta \<Rightarrow> meta" where
  "default_meta meta =
     (let meta = (if meta ''Capo'' = [] then meta(''Capo'' := ''0'') else meta)
      in if meta ''Tuning'' = [] then meta(''Tuning'' := ''Standard'') else meta)"

definition rebuild_parts ::
  "string \<Rightarrow> string \<Rightarrow> string \<Rightarrow> string \<Rightarrow> py_error + rebuilt_parts" where
  "rebuild_parts tab artist_fb title_fb file_base =
     (let lines = str_split_nl tab;
          (file_artist, file_title) = file_artist_title file_base;
          hdr_title = (if 0 < length lines then str_strip (lines ! 0) else []);
          hdr_artist = (if 1 < length lines then str_strip (lines ! 1) else []);
          meta = read_meta lines;
          body = body_of lines;
          artist = str_or hdr_artist (str_or artist_fb (str_or file_artist ''Unknown Artist''));
          title = str_or hdr_title (str_or title_fb (str_or file_title ''Unknown Song''));
          meta = default_meta meta
      in (case (if meta ''Key'' = []
                then (case detect_key body of
                        Inl e \<Rightarrow> Inl e
                      | Inr k \<Rightarrow> Inr (meta(''Key'' := k)))
                else Inr meta) of
            Inl e \<Rightarrow> Inl e
          | Inr meta \<Rightarrow>
              let sp = split_sections body in
              if 0 < sp_headers_found sp then
                (case structure_body sp of
                   Inl e \<Rightarrow> Inl e
                 | Inr sb \<Rightarrow>
                     Inr \<lparr>r_title = title, r_artist = artist,
                          r_meta = (if s_tokens sb \<noteq> []
                                    then meta(''Flow'' := str_join '', '' (s_tokens sb))
                                    else meta),
                          r_body = s_body sb\<rparr>)
              else if meta ''Flow'' = [] then
                let section_tokens = fallback_tokens body in
                Inr \<lparr>r_title = title, r_artist = artist,
                     r_meta = (if section_tokens \<noteq> []
                               then meta(''Flow'' := str_join '' '' section_tokens)
                               else meta),
                     r_body = body\<rparr>
              else Inr \<lparr>r_title = title, r_artist = artist, r_meta = meta, r_body = body\<rparr>))"

definition render :: "rebuilt_parts \<Rightarrow> string" where
  "render r =
     (let header_lines =
            [r_title r, r_artist r] @
            map (\<lambda>name. name @ '': '' @ r_meta r name) meta_names @
            [[], []]
      in str_join [nl] header_lines @ r_body r)"

definition rebuild_formatted_tab ::
  "string \<Rightarrow> string \<Rightarrow> string \<Rightarrow> string \<Rightarrow> py_error + string" where
  "rebuild_formatted_tab tab artist_fb title_fb file_base =
     (case rebuild_parts tab artist_fb title_fb file_base of
        Inl e \<Rightarrow> Inl e
      | Inr r \<Rightarrow> Inr (render r))"

section \<open>The command\<close>

text \<open>
  \<open>main\<close> reads the process environment, writes to the two output channels and returns
  the exit status; an exception it does not catch ends the process instead.
\<close>

record outcome =
  exit_status :: int
  stdout :: string
  stderr :: string

definition environ_get :: "(string \<Rightarrow> string option) \<Rightarrow> string \<Rightarrow> string \<Rightarrow> string" where
  "environ_get environ k dflt = (case environ k of None \<Rightarrow> dflt | Some v \<Rightarrow> v)"

definition main :: "(string \<Rightarrow> string option) \<Rightarrow> py_error + outcome" where
  "main environ =
     (let tab = environ_get environ ''TAB_CONTENT'' [];
          artist_fb = environ_get environ ''ARTIST_FB'' [];
          title_fb = environ_get environ ''TITLE_FB'' [];
          file_base = environ_get environ ''FILE_BASE'' []
      in if tab = [] then
           Inr \<lparr>exit_status = 1, stdout = [], stderr = ''TAB_CONTENT is required'' @ [nl]\<rparr>
         else (case rebuild_formatted_tab tab artist_fb title_fb file_base of
                 Inl e \<Rightarrow> Inl e
               | Inr rebuilt \<Rightarrow> Inr \<lparr>exit_status = 0, stdout = rebuilt @ [nl], stderr = []\<rparr>))"

text \<open>The test the loop of \<open>block_search\<close> makes for one size.\<close>

definition block_ok :: "'a list \<Rightarrow> nat \<Rightarrow> bool" where
  "block_ok lines sz = (length lines mod sz = 0 \<and>
     list_all (\<lambda>i. take sz (drop (i * sz) lines) = take sz lines) [0..<length lines div sz])"

text \<open>
  The specification's reading of key detection: how often a root occurs among the chord
  matches, how often with a minor quality, the roots in the order of their first
  occurrence (the iteration order of the dictionary), and the first of the maxima.
\<close>

definition is_minor_qual :: "string \<Rightarrow> bool" where
  "is_minor_qual qual = (str_startswith qual ''m'' \<and> \<not> str_startswith qual ''maj'')"

definition occurrence_count :: "(string \<times> string) list \<Rightarrow> string \<Rightarrow> nat" where
  "occurrence_count ms r = length (filter (\<lambda>m. fst m = r) ms)"

definition minor_count :: "(string \<times> string) list \<Rightarrow> string \<Rightarrow> nat" where
  "minor_count ms r = length (filter (\<lambda>m. fst m = r \<and> is_minor_qual (snd m)) ms)"

definition first_seen :: "'a list \<Rightarrow> 'a list" where
  "first_seen xs = foldl (\<lambda>acc x. if x \<in> set acc then acc else acc @ [x]) [] xs"

definition first_maximum :: "('a \<Rightarrow> nat) \<Rightarrow> 'a list \<Rightarrow> 'a \<Rightarrow> bool" where
  "first_maximum f xs x =
     (\<exists>i<length xs. xs ! i = x \<and> (\<forall>j<length xs. f (xs ! j) \<le> f x) \<and> (\<forall>j<i. f (xs ! j) < f x))"

definition content_block :: "raw_section \<Rightarrow> string list" where
  "content_block entry = fst (extract_repeated_block (clean_lines (sec_lines entry)))"

definition repeat_count :: "raw_section \<Rightarrow> nat" where
  "repeat_count entry = snd (extract_repeated_block (clean_lines (sec_lines entry)))"

definition new_stat :: "string \<Rightarrow> type_stat" where
  "new_stat prefix = \<lparr>ts_unique = [], ts_prefix = prefix, ts_count = 0\<rparr>"

definition stat_of :: "(string \<times> type_stat) list \<Rightarrow> string \<Rightarrow> string \<Rightarrow> type_stat" where
  "stat_of ts type_name prefix = (case map_of ts type_name of None \<Rightarrow> new_stat prefix | Some s \<Rightarrow> s)"

definition section_type :: "raw_section \<Rightarrow> string option" where
  "section_type entry =
     (case parse_section_header (sec_header entry) of
        Inl e \<Rightarrow> None
      | Inr (type_name, prefix, num) \<Rightarrow> Some type_name)"

definition registry_ok :: "unique_entry list \<Rightarrow> bool" where
  "registry_ok us =
     (\<forall>j<length us.
        u_key (us ! j) = normalize_content (u_lines_clean (us ! j)) \<and>
        u_lines (us ! j) = u_lines_clean (us ! j) \<and>
        (\<forall>k. u_extension_of (us ! j) = Some k \<longrightarrow> 1 \<le> k \<and> k \<le> j))"

definition dedup_inv :: "dedup_state \<Rightarrow> bool" where
  "dedup_inv st =
     (distinct (map fst (dd_type_stats st)) \<and>
      (\<forall>ts\<in>set (dd_type_stats st). registry_ok (ts_unique (snd ts))) \<and>
      (\<forall>oc\<in>set (dd_occurrences st).
         \<exists>s. map_of (dd_type_stats st) (occ_type oc) = Some s \<and>
             1 \<le> occ_unique_idx oc \<and> occ_unique_idx oc \<le> length (ts_unique s)) \<and>
      (\<forall>ui\<in>set (dd_unique_order st).
         \<exists>s. map_of (dd_type_stats st) (fst ui) = Some s \<and>
             1 \<le> snd ui \<and> snd ui \<le> length (ts_unique s)))"

definition type_count :: "(string \<times> type_stat) list \<Rightarrow> string \<Rightarrow> nat" where
  "type_count ts type_name = (case map_of ts type_name of None \<Rightarrow> 0 | Some s \<Rightarrow> ts_count s)"

definition type_uniques :: "(string \<times> type_stat) list \<Rightarrow> string \<Rightarrow> unique_entry list" where
  "type_uniques ts type_name = (case map_of ts type_name of None \<Rightarrow> [] | Some s \<Rightarrow> ts_unique s)"

definition occurrences_of :: "raw_section list \<Rightarrow> occurrence list \<Rightarrow> occurrence list" where
  "occurrences_of secs os =
     concat (map (\<lambda>so. replicate (repeat_count (fst so)) (snd so)) (zip secs os))"

text \<open>One turn of the section loop, written out.\<close>

definition match_of :: "dedup_state \<Rightarrow> raw_section \<Rightarrow> string \<Rightarrow> string \<Rightarrow>
    nat option \<times> unique_entry list \<times> bool" where
  "match_of st entry type_name prefix =
     (let us = ts_unique (stat_of (dd_type_stats st) type_name prefix) in
      find_match type_name (content_block entry) (normalize_content (content_block entry)) us 1 us)"

definition numbered :: "string \<Rightarrow> type_stat \<Rightarrow> bool" where
  "numbered type_name stats =
     (1 < length (ts_unique stats) \<or>
      (type_name \<in> {''Verse'', ''Pre-Chorus'', ''Chorus'', ''Bridge''} \<and> 1 < ts_count stats))"

text \<open>The entry the display map holds for a unique content, in the specification's words.\<close>

definition display_of :: "string \<Rightarrow> type_stat \<Rightarrow> nat \<Rightarrow> display_entry" where
  "display_of type_name stats idx =
     \<lparr>de_display_name =
        (if numbered type_name stats then type_name @ '' '' @ str_of_nat idx else type_name),
      de_token =
        (if numbered type_name stats then ts_prefix stats @ str_of_nat idx else ts_prefix stats),
      de_lines = u_lines (ts_unique stats ! (idx - 1)),
      de_extension_of = u_extension_of (ts_unique stats ! (idx - 1))\<rparr>"

definition occurrence_token :: "(string \<times> type_stat) list \<Rightarrow> occurrence \<Rightarrow> string" where
  "occurrence_token ts oc =
     (case map_of ts (occ_type oc) of
        None \<Rightarrow> []
      | Some s \<Rightarrow> de_token (display_of (occ_type oc) s (occ_unique_idx oc)))"

definition tab_body :: "string \<Rightarrow> string" where
  "tab_body tab = body_of (str_split_nl tab)"

definition tab_split :: "string \<Rightarrow> split_state" where
  "tab_split tab = split_sections (tab_body tab)"

definition dedup_init :: dedup_state where
  "dedup_init = \<lparr>dd_type_stats = [], dd_unique_order = [], dd_occurrences = []\<rparr>"

definition section_kind :: "raw_section \<Rightarrow> py_error + string \<times> string" where
  "section_kind entry =
     (case parse_section_header (sec_header entry) of
        Inl e \<Rightarrow> Inl e
      | Inr (type_name, prefix, num) \<Rightarrow> Inr (type_name, prefix))"

definition tab_of_lines :: "string list \<Rightarrow> string" where
  "tab_of_lines ls = str_join [nl] ls"

definition three_verses :: string where
  "three_verses = tab_of_lines
     [''Song'', ''Band'', ''Key: G'', ''Capo: 2'', ''Tempo: '', ''Time: '', ''Flow: x y'',
      ''Tuning: '', ''TransposedKey: '', [],
      ''Verse:'', ''G  D'', ''la'', [], ''Verse:'', ''G  D'', ''la'', [], ''Verse:'', ''G  D'', ''la'']"

definition verse_two :: string where
  "verse_two = tab_of_lines
     [''Song'', ''Band'', ''Key: G'', ''Capo: '', ''Tempo: '', ''Time: '', ''Flow: '',
      ''Tuning: '', ''TransposedKey: '', [], ''Verse 2:'', ''G  D'', ''la'']"

definition verse_bare :: string where
  "verse_bare = tab_of_lines
     [''Song'', ''Band'', ''Key: G'', ''Capo: '', ''Tempo: '', ''Time: '', ''Flow: '',
      ''Tuning: '', ''TransposedKey: '', [], ''Verse:'', ''G  D'', ''la'']"

definition no_headers :: string where
  "no_headers = tab_of_lines
     [''Song'', ''Band'', ''Key: G'', ''Capo: '', ''Tempo: '', ''Time: '', ''Flow: A B A'',
      ''Tuning: '', ''TransposedKey: '', [], ''G  D'', ''la'']"

definition flow_field :: "py_error + rebuilt_parts \<Rightarrow> string option" where
  "flow_field res = (case res of Inl e \<Rightarrow> None | Inr r \<Rightarrow> Some (r_meta r ''Flow''))"

definition stats_field :: "py_error + structured \<Rightarrow> string \<Rightarrow> (nat \<times> nat) option" where
  "stats_field res type_name =
     (case res of
        Inl e \<Rightarrow> None
      | Inr sb \<Rightarrow>
          (case map_of (dd_type_stats (s_state sb)) type_name of
             None \<Rightarrow> None
           | Some stats \<Rightarrow> Some (length (ts_unique stats), ts_count stats)))"

definition chorus_run ::
  "raw_section list \<Rightarrow> (nat list \<times> (string \<times> string list \<times> nat option) list) option" where
  "chorus_run secs =
     (case dedup_sections dedup_init secs of
        Inl e \<Rightarrow> None
      | Inr st \<Rightarrow>
          Some (map occ_unique_idx (dd_occurrences st),
                map (\<lambda>u. (u_key u, u_lines_clean u, u_extension_of u))
                  (type_uniques (dd_type_stats st) ''Chorus'')))"

definition chorus :: "string list \<Rightarrow> raw_section" where
  "chorus ls = \<lparr>sec_header = ''Chorus'', sec_lines = ls\<rparr>"

definition three_choruses :: string where
  "three_choruses = tab_of_lines
     [''Song'', ''Band'', ''Key: G'', ''Capo: '', ''Tempo: '', ''Time: '', ''Flow: '',
      ''Tuning: '', ''TransposedKey: '', [],
      ''Chorus:'', [], ''a'', ''x'', ''Chorus:'', ''a'', ''Chorus:'', ''a'', ''x'']"

definition two_choruses :: string where
  "two_choruses = tab_of_lines
     [''Song'', ''Band'', ''Key: G'', ''Capo: '', ''Tempo: '', ''Time: '', ''Flow: '',
      ''Tuning: '', ''TransposedKey: '', [],
      ''Chorus:'', ''a'', ''b'', ''Chorus:'', ''a'', ''b'', ''c'', ''d'']"

text \<open>
  The occurrence record the section loop appends for a section met in a given state:
  the header's type and abbreviation, the index the registry loop resolved (the matched
  index, or the index of the entry appended when nothing matched) and the extension flag.
\<close>

definition resolved_occurrence :: "dedup_state \<Rightarrow> raw_section \<Rightarrow> occurrence option" where
  "resolved_occurrence st entry =
     (case parse_section_header (sec_header entry) of
        Inl e \<Rightarrow> None
      | Inr (type_name, prefix, num) \<Rightarrow>
          (case match_of st entry type_name prefix of
             (found, us1, ext) \<Rightarrow>
               Some \<lparr>occ_type = type_name, occ_prefix = prefix,
                     occ_unique_idx = (case found of Some m \<Rightarrow> m | None \<Rightarrow> length us1 + 1),
                     occ_extension = ext\<rparr>))"

text \<open>
  What it means for index \<open>m\<close> of a registry to be the unique content of a section's
  collapsed content: the entry's key is the content's key; or, for a Chorus, the content
  is the entry's lines followed by nothing but blank space, or the entry is an extension
  whose base's lines start the content and whose key is the key of the rest.
\<close>

definition resolves_content :: "string \<Rightarrow> string list \<Rightarrow> unique_entry list \<Rightarrow> nat \<Rightarrow> bool" where
  "resolves_content type_name content us m =
     (1 \<le> m \<and> m \<le> length us \<and>
      (u_key (us ! (m - 1)) = normalize_content content \<or>
       (type_name = ''Chorus'' \<and>
        (starts_with_lines content (u_lines_clean (us ! (m - 1))) \<and>
         normalize_content (drop (length (u_lines_clean (us ! (m - 1)))) content) = [] \<or>
         (case u_extension_of (us ! (m - 1)) of
            None \<Rightarrow> False
          | Some b \<Rightarrow>
              1 \<le> b \<and> b \<le> length us \<and>
              starts_with_lines content (u_lines_clean (us ! (b - 1))) \<and>
              u_key (us ! (m - 1)) =
                normalize_content (drop (length (u_lines_clean (us ! (b - 1)))) content))))))"

text \<open>Outside Chorus, no two entries of a type's registry have the same key.\<close>

definition keys_inv :: "(string \<times> type_stat) list \<Rightarrow> bool" where
  "keys_inv ts = (\<forall>t. t \<noteq> ''Chorus'' \<longrightarrow> distinct (map u_key (type_uniques ts t)))"

text \<open>The type and unique index of every occurrence of a structured body, in order.\<close>

definition occurrences_field :: "py_error + structured \<Rightarrow> (string \<times> nat) list option" where
  "occurrences_field res =
     (case res of
        Inl e \<Rightarrow> None
      | Inr sb \<Rightarrow> Some (map (\<lambda>oc. (occ_type oc, occ_unique_idx oc)) (dd_occurrences (s_state sb))))"

text \<open>
  A tab with a verse played twice, a chorus, a second verse, the chorus with two more
  lines and a solo played twice.
\<close>

definition verses_and_solo :: string where
  "verses_and_solo = tab_of_lines
     [''Song'', ''Band'', ''Key: G'', ''Capo: '', ''Tempo: '', ''Time: '', ''Flow: '',
      ''Tuning: '', ''TransposedKey: '', [],
      ''Verse:'', ''la'', ''la'', ''Chorus:'', ''c'', ''Verse:'', ''h'',
      ''Chorus:'', ''c'', ''d'', ''Solo:'', ''s'', ''s'']"

text \<open>
  A tab whose body is one header line: the letter V, a space, \<open>n\<close> digits 1 and a colon.
\<close>

definition long_number_tab :: "nat \<Rightarrow> string" where
  "long_number_tab n = tab_of_lines
     [''Song'', ''Band'', ''Key: C'', [], [], [], [], [], [], [],
      ''V '' @ replicate n (CHR ''1'') @ '':'']"

(*DEFS-END*)

section \<open>Properties of the repeated-block collapser\<close>

lemma chunks_concat_replicate:
  "length xs = k * sz \<Longrightarrow> length b = sz \<Longrightarrow>
   (\<forall>i<k. take sz (drop (i * sz) xs) = b) \<longleftrightarrow> xs = concat (replicate k b)"
proof (induction k arbitrary: xs)
  case 0
  then show ?case by simp
next
  case (Suc k)
  have len: "length (drop sz xs) = k * sz" using Suc.prems by simp
  have split: "(\<forall>i<Suc k. take sz (drop (i * sz) xs) = b) \<longleftrightarrow>
        take sz xs = b \<and> (\<forall>i<k. take sz (drop (i * sz) (drop sz xs)) = b)"
    (is "?L \<longleftrightarrow> ?R")
  proof
    assume l: ?L
    then have "take sz (drop (0 * sz) xs) = b" by blast
    moreover have "\<forall>i<k. take sz (drop (i * sz) (drop sz xs)) = b"
    proof (intro allI impI)
      fix i assume "i < k"
      then have "Suc i < Suc k" by simp
      with l have "take sz (drop (Suc i * sz) xs) = b" by blast
      then show "take sz (drop (i * sz) (drop sz xs)) = b" by (simp add: add.commute)
    qed
    ultimately show ?R by simp
  next
    assume r: ?R
    show ?L
    proof (intro allI impI)
      fix i assume i: "i < Suc k"
      show "take sz (drop (i * sz) xs) = b"
      proof (cases i)
        case 0
        then show ?thesis using r by simp
      next
        case (Suc j)
        then have "j < k" using i by simp
        then have "take sz (drop (j * sz) (drop sz xs)) = b" using r by blast
        then show ?thesis using Suc by (simp add: add.commute)
      qed
    qed
  qed
  have "xs = take sz xs @ drop sz xs" by simp
  then have eq: "xs = b @ concat (replicate k b) \<longleftrightarrow> take sz xs = b \<and> drop sz xs = concat (replicate k b)"
    using Suc.prems by (metis append_eq_conv_conj)
  show ?case
    using split Suc.IH[OF len Suc.prems(2)] eq by simp
qed

lemma block_search_find:
  "block_search lines sizes =
     (case find (block_ok lines) sizes of
        None \<Rightarrow> (lines, 1)
      | Some s \<Rightarrow> (take s lines, length lines div s))"
  by (induction sizes) (auto simp: block_ok_def Let_def)

lemma block_ok_repeats:
  assumes "1 \<le> s" "s \<le> length lines div 2"
  shows "block_ok lines s \<longleftrightarrow> repeats_with lines s"
proof (cases "length lines mod s = 0")
  case False
  then show ?thesis by (simp add: block_ok_def repeats_with_def)
next
  case True
  then have len: "length lines = (length lines div s) * s" by auto
  have lb: "length (take s lines) = s" using assms
    by (metis True div_le_dividend le_trans length_take min.absorb2 div_less_dividend  nat_le_linear)
  have "(\<forall>i<length lines div s. take s (drop (i * s) lines) = take s lines) \<longleftrightarrow>
        lines = concat (replicate (length lines div s) (take s lines))"
    by (rule chunks_concat_replicate[OF len lb])
  then show ?thesis using True assms
    by (auto simp: block_ok_def repeats_with_def list_all_iff)
qed

lemma extract_repeated_block_least:
  assumes "repeats_with lines s" "\<forall>t<s. \<not> repeats_with lines t"
  shows "extract_repeated_block lines = (take s lines, length lines div s)"
proof -
  let ?n = "length lines"
  have s: "1 \<le> s" "s \<le> ?n div 2" using assms(1) by (simp_all add: repeats_with_def)
  then have n0: "?n \<noteq> 0" by auto
  let ?sizes = "[1..<?n div 2 + 1]"
  have idx1: "s - 1 < length ?sizes" using s by auto
  have "?sizes ! (s - 1) = 1 + (s - 1)" by (rule nth_upt) (use s in simp)
  then have idx2: "?sizes ! (s - 1) = s" using s by simp
  note idx = idx1 idx2
  have ok: "block_ok lines s" using assms(1) s block_ok_repeats by blast
  have before: "\<forall>j<s - 1. \<not> block_ok lines (?sizes ! j)"
  proof (intro allI impI)
    fix j assume j: "j < s - 1"
    have "?sizes ! j = 1 + j" by (rule nth_upt) (use s j in simp)
    then have e: "?sizes ! j = j + 1" by simp
    have "\<not> repeats_with lines (j + 1)" using assms(2) j by auto
    moreover have "1 \<le> j + 1" "j + 1 \<le> ?n div 2" using j s by auto
    ultimately show "\<not> block_ok lines (?sizes ! j)" using block_ok_repeats e by metis
  qed
  have "find (block_ok lines) ?sizes = Some s"
    unfolding find_Some_iff using idx ok before by (intro exI[of _ "s - 1"]) simp
  then show ?thesis using n0 by (simp add: extract_repeated_block_def block_search_find)
qed

lemma extract_repeated_block_none:
  assumes "\<forall>s. \<not> repeats_with lines s"
  shows "extract_repeated_block lines = (lines, 1)"
proof (cases "length lines = 0")
  case True
  then show ?thesis by (simp add: extract_repeated_block_def)
next
  case False
  have "\<forall>x\<in>set [1..<length lines div 2 + 1]. \<not> block_ok lines x"
    using assms block_ok_repeats by fastforce
  then have "find (block_ok lines) [1..<length lines div 2 + 1] = None"
    unfolding find_None_iff by blast
  then show ?thesis using False by (simp add: extract_repeated_block_def block_search_find)
qed

text \<open>
  Claim C5. For every list of lines, \<open>extract_repeated_block\<close> returns the first \<open>s\<close>
  lines and \<open>n div s\<close> for the smallest block size \<open>s\<close> (between 1 and \<open>n div 2\<close>,
  dividing \<open>n\<close>, the lines being the first \<open>s\<close> lines repeated \<open>n div s\<close> times); when
  there is no such size, the empty list included, it returns the lines and 1. Four
  equal lines collapse to one line four times; two different lines do not collapse.
\<close>

theorem extract_repeated_block_smallest:
  "(repeats_with lines s \<and> (\<forall>t<s. \<not> repeats_with lines t) \<longrightarrow>
      extract_repeated_block lines = (take s lines, length lines div s)) \<and>
   ((\<forall>s. \<not> repeats_with lines s) \<longrightarrow> extract_repeated_block lines = (lines, 1)) \<and>
   extract_repeated_block [''E'', ''E'', ''E'', ''E''] = ([''E''], 4) \<and>
   extract_repeated_block [''E'', ''F''] = ([''E'', ''F''], 1)"
proof -
  have "extract_repeated_block [''E'', ''E'', ''E'', ''E''] = ([''E''], 4)" by code_simp
  moreover have "extract_repeated_block [''E'', ''F''] = ([''E'', ''F''], 1)" by code_simp
  ultimately show ?thesis
    using extract_repeated_block_least extract_repeated_block_none by blast
qed

theorem extract_repeated_block_smallest_witness:
  "repeats_with [''a'', ''b'', ''a'', ''b''] 2 \<and> \<not> repeats_with [''a'', ''b'', ''a'', ''b''] 1 \<and>
   extract_repeated_block [''a'', ''b'', ''a'', ''b''] = ([''a'', ''b''], 2) \<and>
   \<not> repeats_with [''E'', ''F'', ''G''] 1 \<and>
   extract_repeated_block [''E'', ''F'', ''G''] = ([''E'', ''F'', ''G''], 1)"
proof -
  let ?L = "[''a'', ''b'', ''a'', ''b'']"
  have r2: "repeats_with ?L 2" by (simp add: repeats_with_def)
  have r1: "\<not> repeats_with ?L 1" by (simp add: repeats_with_def)
  have r0: "\<not> repeats_with ?L 0" by (simp add: repeats_with_def)
  have "\<forall>t<2. \<not> repeats_with ?L t"
  proof (intro allI impI)
    fix t :: nat assume "t < 2"
    then have "t = 0 \<or> t = 1" by auto
    then show "\<not> repeats_with ?L t" using r0 r1 by auto
  qed
  then have a: "extract_repeated_block ?L = (take 2 ?L, length ?L div 2)"
    using extract_repeated_block_smallest[of ?L 2] r2 by blast
  let ?M = "[''E'', ''F'', ''G'']"
  have m1: "\<not> repeats_with ?M 1" by (simp add: repeats_with_def)
  have "\<forall>s. \<not> repeats_with ?M s"
  proof
    fix s show "\<not> repeats_with ?M s"
    proof
      assume h: "repeats_with ?M s"
      then have "s = 1" by (simp add: repeats_with_def)
      then show False using h m1 by simp
    qed
  qed
  then have b: "extract_repeated_block ?M = (?M, 1)"
    using extract_repeated_block_smallest[of ?M] by blast
  show ?thesis using a b r2 r1 m1 by simp
qed

section \<open>Properties of key detection\<close>

lemma map_fst_dict_incr:
  "map fst (dict_incr d k) = (if k \<in> set (map fst d) then map fst d else map fst d @ [k])"
  by (induction d) (force+)

lemma map_of_dict_incr:
  "map_of (dict_incr d k) k' =
     (if k' = k then Some (case map_of d k of None \<Rightarrow> 1 | Some v \<Rightarrow> v + 1) else map_of d k')"
  by (induction d) (auto)

lemma dict_get_dict_incr:
  "dict_get (dict_incr d k) k' 0 = dict_get d k' 0 + (if k' = k then 1 else 0)"
  by (simp add: dict_get_def map_of_dict_incr split: option.splits)

lemma keys_foldl_dict_incr:
  "map fst (foldl dict_incr d ks) =
     foldl (\<lambda>acc x. if x \<in> set acc then acc else acc @ [x]) (map fst d) ks"
  by (induction ks arbitrary: d) (simp_all add: map_fst_dict_incr)

lemma dict_get_foldl_dict_incr:
  "dict_get (foldl dict_incr d ks) k 0 = dict_get d k 0 + length (filter (\<lambda>x. x = k) ks)"
  by (induction ks arbitrary: d) (auto simp: dict_get_dict_incr)

lemma foldl_count_chord:
  "foldl count_chord (rc, mc) ms =
     (foldl dict_incr rc (map fst ms),
      foldl dict_incr mc (map fst (filter (\<lambda>m. is_minor_qual (snd m)) ms)))"
  by (induction ms arbitrary: rc mc) (auto simp: count_chord_def is_minor_qual_def Let_def)

lemma py_max_by_first_maximum:
  assumes "i < length pre" "\<forall>j<length pre. f (pre ! j) \<le> f (pre ! i)" "\<forall>j<i. f (pre ! j) < f (pre ! i)"
  shows "\<exists>i'<length (pre @ xs). py_max_by f (pre ! i) xs = (pre @ xs) ! i' \<and>
           (\<forall>j<length (pre @ xs). f ((pre @ xs) ! j) \<le> f ((pre @ xs) ! i')) \<and>
           (\<forall>j<i'. f ((pre @ xs) ! j) < f ((pre @ xs) ! i'))"
  using assms
proof (induction xs arbitrary: pre i)
  case Nil
  then show ?case by auto
next
  case (Cons x xs)
  let ?pre = "pre @ [x]"
  show ?case
  proof (cases "f (pre ! i) < f x")
    case True
    have a: "length pre < length ?pre" by simp
    have b: "\<forall>j<length ?pre. f (?pre ! j) \<le> f (?pre ! length pre)"
      using Cons.prems True by (auto simp: nth_append less_Suc_eq intro: le_trans less_imp_le)
    have c: "\<forall>j<length pre. f (?pre ! j) < f (?pre ! length pre)"
      using Cons.prems True by (auto simp: nth_append intro: le_less_trans)
    from Cons.IH[OF a b c] True show ?thesis by (simp add: nth_append)
  next
    case False
    have a: "i < length ?pre" using Cons.prems by simp
    have b: "\<forall>j<length ?pre. f (?pre ! j) \<le> f (?pre ! i)"
      using Cons.prems False by (auto simp: nth_append less_Suc_eq)
    have c: "\<forall>j<i. f (?pre ! j) < f (?pre ! i)"
      using Cons.prems by (auto simp: nth_append)
    from Cons.IH[OF a b c] False Cons.prems(1) show ?thesis by (simp add: nth_append)
  qed
qed

lemma py_max_by_is_first_maximum:
  "first_maximum f (x # xs) (py_max_by f x xs)"
proof -
  have "\<exists>i'<length ([x] @ xs). py_max_by f ([x] ! 0) xs = ([x] @ xs) ! i' \<and>
           (\<forall>j<length ([x] @ xs). f (([x] @ xs) ! j) \<le> f (([x] @ xs) ! i')) \<and>
           (\<forall>j<i'. f (([x] @ xs) ! j) < f (([x] @ xs) ! i'))"
    by (rule py_max_by_first_maximum) auto
  then show ?thesis unfolding first_maximum_def by (auto simp del: nth_Cons_Suc)
qed

lemma set_first_seen_foldl:
  "set (foldl (\<lambda>acc x. if x \<in> set acc then acc else acc @ [x]) acc xs) = set acc \<union> set xs"
  by (induction xs arbitrary: acc) auto

lemma distinct_first_seen_foldl:
  "distinct acc \<Longrightarrow> distinct (foldl (\<lambda>acc x. if x \<in> set acc then acc else acc @ [x]) acc xs)"
  by (induction xs arbitrary: acc) auto

lemma set_first_seen: "set (first_seen xs) = set xs"
  by (simp add: first_seen_def set_first_seen_foldl)

lemma distinct_first_seen: "distinct (first_seen xs)"
  by (simp add: first_seen_def distinct_first_seen_foldl)

lemma dict_items:
  assumes "distinct (map fst d)" "j < length d"
  shows "d ! j = (map fst d ! j, dict_get d (map fst d ! j) 0)"
proof -
  obtain k v where kv: "d ! j = (k, v)" by (cases "d ! j")
  then have "(k, v) \<in> set d" using assms(2) by (metis nth_mem)
  then have "map_of d k = Some v" using assms(1) by simp
  then show ?thesis using kv assms(2) by (simp add: dict_get_def)
qed

lemma first_maximum_dict:
  assumes "distinct (map fst d)" "first_maximum snd d item"
  shows "first_maximum (\<lambda>k. dict_get d k 0) (map fst d) (fst item) \<and>
         map_of d (fst item) = Some (dict_get d (fst item) 0)"
proof -
  from assms(2) obtain i where i: "i < length d" "d ! i = item"
    "\<forall>j<length d. snd (d ! j) \<le> snd item" "\<forall>j<i. snd (d ! j) < snd item"
    unfolding first_maximum_def by blast
  have it: "\<And>j. j < length d \<Longrightarrow> snd (d ! j) = dict_get d (map fst d ! j) 0"
    using dict_items[OF assms(1)] by (metis snd_conv)
  have fi: "map fst d ! i = fst item" using i by simp
  have si: "snd item = dict_get d (fst item) 0" using it[OF i(1)] i(2) fi by simp
  have "item \<in> set d" using i by (metis nth_mem)
  moreover obtain k v where kv: "item = (k, v)" by (cases item)
  ultimately have "map_of d k = Some v" using assms(1) by simp
  then have m: "map_of d (fst item) = Some (snd item)" using kv by simp
  have "first_maximum (\<lambda>k. dict_get d k 0) (map fst d) (fst item)"
    unfolding first_maximum_def
  proof (intro exI[of _ i] conjI allI impI)
    show "i < length (map fst d)" using i by simp
    show "map fst d ! i = fst item" by (rule fi)
  next
    fix j assume "j < length (map fst d)"
    then have j: "j < length d" by simp
    then show "dict_get d (map fst d ! j) 0 \<le> dict_get d (fst item) 0"
      using i(3) it[OF j] si by (metis)
  next
    fix j assume ji: "j < i"
    then have j: "j < length d" using i by simp
    show "dict_get d (map fst d ! j) 0 < dict_get d (fst item) 0"
      using i(4) ji it[OF j] si by (metis)
  qed
  then show ?thesis using m si by simp
qed

lemma dict_get_Nil: "dict_get [] k dflt = dflt"
  by (simp add: dict_get_def)

lemma root_counts_facts:
  fixes ms :: "(string \<times> string) list"
  defines "rc \<equiv> foldl dict_incr [] (map fst ms)"
  shows "map fst rc = first_seen (map fst ms)"
    and "dict_get rc r 0 = occurrence_count ms r"
  by (simp_all add: rc_def keys_foldl_dict_incr first_seen_def dict_get_foldl_dict_incr
        occurrence_count_def dict_get_Nil filter_map comp_def)

lemma minor_counts_fact:
  "dict_get (foldl dict_incr [] (map fst (filter (\<lambda>m. is_minor_qual (snd m)) ms))) r 0 =
   minor_count ms r"
  by (simp add: dict_get_foldl_dict_incr minor_count_def dict_get_Nil filter_map comp_def conj_commute)

lemma half_ratio:
  assumes "0 < t"
  shows "(t \<le> 2 * m) = (1 / 2 \<le> real m / real t)"
proof -
  have "(1 / 2 \<le> real m / real t) = (real t \<le> real (2 * m))"
    using assms by (simp add: field_simps)
  also have "\<dots> = (t \<le> 2 * m)" by (rule of_nat_le_iff)
  finally show ?thesis by simp
qed

lemma detect_key_nonempty:
  assumes ne: "chord_matches body \<noteq> []"
  shows "\<exists>best. first_maximum (occurrence_count (chord_matches body))
                   (first_seen (map fst (chord_matches body))) best \<and>
           detect_key body =
             Inr (if 1 / 2 \<le> real (minor_count (chord_matches body) best) /
                              real (occurrence_count (chord_matches body) best)
                  then best @ ''m'' else best)"
proof -
  let ?ms = "chord_matches body"
  let ?rc = "foldl dict_incr [] (map fst ?ms)"
  let ?mc = "foldl dict_incr [] (map fst (filter (\<lambda>m. is_minor_qual (snd m)) ?ms))"
  have keys: "map fst ?rc = first_seen (map fst ?ms)" by (rule root_counts_facts)
  have occ: "\<And>r. dict_get ?rc r 0 = occurrence_count ?ms r" by (rule root_counts_facts)
  have dist: "distinct (map fst ?rc)" using keys distinct_first_seen by metis
  have "set (map fst ?rc) = set (map fst ?ms)" using keys set_first_seen by metis
  then have "?rc \<noteq> []" using ne by auto
  then obtain item items where rc: "?rc = item # items" by (cases ?rc) auto
  let ?best = "fst (py_max_by snd item items)"
  have fm: "first_maximum snd ?rc (py_max_by snd item items)"
    unfolding rc by (rule py_max_by_is_first_maximum)
  from first_maximum_dict[OF dist fm]
  have fm': "first_maximum (occurrence_count ?ms) (first_seen (map fst ?ms)) ?best"
    and look: "map_of ?rc ?best = Some (occurrence_count ?ms ?best)"
    using keys occ by simp_all
  have "?best \<in> set (first_seen (map fst ?ms))"
    using fm' unfolding first_maximum_def by (metis nth_mem)
  then have "?best \<in> fst ` set ?ms" using set_first_seen by (metis set_map)
  then obtain m where "m \<in> set ?ms" "fst m = ?best" by auto
  then have "filter (\<lambda>m. fst m = ?best) ?ms \<noteq> []" by (auto simp: filter_empty_conv)
  then have pos: "0 < occurrence_count ?ms ?best"
    unfolding occurrence_count_def by simp
  have dk: "detect_key body =
      Inr (if 0 < occurrence_count ?ms ?best \<and> occurrence_count ?ms ?best \<le> 2 * minor_count ?ms ?best
           then ?best @ ''m'' else ?best)"
    using rc look by (simp add: detect_key_def foldl_count_chord Let_def minor_counts_fact)
  show ?thesis
    using fm' dk pos half_ratio[OF pos] by (intro exI[of _ ?best]) simp
qed

lemma detect_key_empty: "chord_matches body = [] \<Longrightarrow> detect_key body = Inr []"
  by (simp add: detect_key_def)

text \<open>
  Claim C6. When the text has no chord match, \<open>detect_key\<close> returns the empty string.
  Otherwise it returns the root with the highest number of occurrences, the first such
  root in the order of first occurrence when several have that number, followed by
  \<open>m\<close> exactly when the quotient of its minor count by its occurrence count is at
  least one half. It returns \<open>Am\<close> on \<open>Am F C G Am F C G\<close> and \<open>G\<close> on \<open>G D Em C\<close>.
\<close>

theorem detect_key_first_maximum:
  "(chord_matches body = [] \<longrightarrow> detect_key body = Inr []) \<and>
   (chord_matches body \<noteq> [] \<longrightarrow>
      (\<exists>best. first_maximum (occurrence_count (chord_matches body))
                 (first_seen (map fst (chord_matches body))) best \<and>
         detect_key body =
           Inr (if 1 / 2 \<le> real (minor_count (chord_matches body) best) /
                            real (occurrence_count (chord_matches body) best)
                then best @ ''m'' else best))) \<and>
   detect_key ''Am F C G Am F C G'' = Inr ''Am'' \<and>
   detect_key ''G D Em C'' = Inr ''G''"
proof -
  have "detect_key ''Am F C G Am F C G'' = Inr ''Am''" by code_simp
  moreover have "detect_key ''G D Em C'' = Inr ''G''" by code_simp
  ultimately show ?thesis using detect_key_empty detect_key_nonempty by blast
qed

theorem detect_key_first_maximum_witness:
  "chord_matches ''xyz'' = [] \<and> detect_key ''xyz'' = Inr [] \<and>
   chord_matches ''F Dm Dm7'' = [(''F'', []), (''D'', ''m''), (''D'', ''m7'')] \<and>
   (\<exists>best. first_maximum (occurrence_count (chord_matches ''F Dm Dm7''))
              (first_seen (map fst (chord_matches ''F Dm Dm7''))) best \<and>
      detect_key ''F Dm Dm7'' =
        Inr (if 1 / 2 \<le> real (minor_count (chord_matches ''F Dm Dm7'') best) /
                         real (occurrence_count (chord_matches ''F Dm Dm7'') best)
             then best @ ''m'' else best))"
proof -
  have a: "chord_matches ''xyz'' = []" by code_simp
  have b: "chord_matches ''F Dm Dm7'' = [(''F'', []), (''D'', ''m''), (''D'', ''m7'')]" by code_simp
  then have c: "chord_matches ''F Dm Dm7'' \<noteq> []" by simp
  show ?thesis
    using a b c detect_key_first_maximum[of "''xyz''"] detect_key_first_maximum[of "''F Dm Dm7''"]
    by blast
qed

section \<open>Properties of the structured path\<close>

lemma map_of_dict_setdefault:
  "map_of (dict_setdefault d k v) k' =
     (if k' = k then Some (case map_of d k of None \<Rightarrow> v | Some x \<Rightarrow> x) else map_of d k')"
  by (auto simp: dict_setdefault_def map_add_def split: option.splits)

lemma keys_dict_setdefault:
  "map fst (dict_setdefault d k v) = (if k \<in> set (map fst d) then map fst d else map fst d @ [k])"
proof (cases "map_of d k")
  case None
  then have "k \<notin> fst ` set d" by (simp add: map_of_eq_None_iff)
  then show ?thesis using None by (simp add: dict_setdefault_def)
next
  case (Some x)
  then have "(k, x) \<in> set d" by (rule map_of_SomeD)
  then have "k \<in> fst ` set d" by force
  then show ?thesis using Some by (simp add: dict_setdefault_def)
qed

lemma keys_dict_update: "map fst (dict_update d k v) = map fst d"
  by (simp add: dict_update_def case_prod_beta if_distrib[of fst] cong: if_cong)

lemma map_of_dict_update:
  "map_of (dict_update d k v) k' = (if k' = k \<and> k \<in> set (map fst d) then Some v else map_of d k')"
proof (induction d)
  case Nil
  then show ?case by (simp add: dict_update_def)
next
  case (Cons a d)
  obtain x y where a: "a = (x, y)" by (cases a)
  have "dict_update (a # d) k v = (if x = k then (x, v) else (x, y)) # dict_update d k v"
    by (simp add: dict_update_def a)
  then show ?case using Cons a by (auto simp: image_iff) force+
qed

lemma extract_repeated_block_count_pos: "0 < snd (extract_repeated_block lines)"
proof -
  have "\<And>sizes. 0 \<notin> set sizes \<Longrightarrow> length lines \<noteq> 0 \<Longrightarrow> 0 < snd (block_search lines sizes)"
  proof -
    fix sizes :: "nat list"
    assume "0 \<notin> set sizes" "length lines \<noteq> 0"
    then show "0 < snd (block_search lines sizes)"
    proof (induction sizes)
      case Nil
      then show ?case by simp
    next
      case (Cons sz sizes)
      then have "0 < sz" by auto
      moreover have "length lines mod sz = 0 \<Longrightarrow> 0 < length lines div sz"
        using Cons.prems \<open>0 < sz\<close> by (metis div_greater_zero_iff dvd_imp_le mod_0_imp_dvd neq0_conv)
      ultimately show ?case using Cons by (auto simp: Let_def)
    qed
  qed
  then show ?thesis by (auto simp: extract_repeated_block_def Let_def)
qed

lemma repeat_count_pos: "0 < repeat_count entry"
  by (simp add: repeat_count_def extract_repeated_block_count_pos)

lemma find_extension_bounds:
  "find_extension idx k jdx us = Some j \<Longrightarrow> jdx \<le> j \<and> j < jdx + length us"
proof (induction us arbitrary: jdx)
  case Nil
  then show ?case by simp
next
  case (Cons u us)
  show ?case
  proof (cases "u_extension_of u = Some idx \<and> u_key u = k")
    case True
    then show ?thesis using Cons.prems by auto
  next
    case False
    then have "find_extension idx k (jdx + 1) us = Some j" using Cons.prems by auto
    from Cons.IH[OF this] show ?thesis by simp
  qed
qed

lemma find_extension_Some:
  "find_extension idx k jdx us = Some j \<Longrightarrow>
     u_extension_of (us ! (j - jdx)) = Some idx \<and> u_key (us ! (j - jdx)) = k \<and>
     (\<forall>m<j - jdx. \<not> (u_extension_of (us ! m) = Some idx \<and> u_key (us ! m) = k))"
proof (induction us arbitrary: jdx)
  case Nil
  then show ?case by simp
next
  case (Cons u us)
  show ?case
  proof (cases "u_extension_of u = Some idx \<and> u_key u = k")
    case True
    then show ?thesis using Cons.prems by auto
  next
    case False
    then have f: "find_extension idx k (jdx + 1) us = Some j" using Cons.prems by auto
    from find_extension_bounds[OF f] have b: "jdx + 1 \<le> j" by simp
    then have e: "j - jdx = Suc (j - (jdx + 1))" by simp
    from Cons.IH[OF f] False show ?thesis unfolding e
      by (auto simp: less_Suc_eq_0_disj)
  qed
qed

lemma find_extension_None:
  "find_extension idx k jdx us = None \<Longrightarrow>
     \<forall>u\<in>set us. \<not> (u_extension_of u = Some idx \<and> u_key u = k)"
  by (induction us arbitrary: jdx) (auto split: if_splits)

text \<open>What the loop over the registry returns: an index into the registry it leaves.\<close>

lemma find_match_shape:
  assumes "find_match t cc ck all idx us = (r, all', ext)"
    and "1 \<le> idx" "idx + length us = length all + 1"
  shows "(all' = all \<and> \<not> ext \<or> (\<exists>e. all' = all @ [e] \<and> ext \<and> r = Some (length all'))) \<and>
         (\<forall>m. r = Some m \<longrightarrow> 1 \<le> m \<and> m \<le> length all') \<and>
         (r = None \<longrightarrow> all' = all)"
  using assms
proof (induction us arbitrary: idx)
  case Nil
  then show ?case by auto
next
  case (Cons u us)
  show ?case
  proof (cases "u_key u = ck")
    case True
    then show ?thesis using Cons.prems by auto
  next
    case False
    note nk = this
    show ?thesis
    proof (cases "t = ''Chorus'' \<and> starts_with_lines cc (u_lines_clean u)")
      case False
      then have "find_match t cc ck all (idx + 1) us = (r, all', ext)"
        using Cons.prems nk by auto
      from Cons.IH[OF this] Cons.prems show ?thesis by simp
    next
      case True
      let ?ek = "str_strip (str_join [nl] (drop (length (u_lines_clean u)) cc))"
      show ?thesis
      proof (cases "?ek = []")
        case True
        then show ?thesis using Cons.prems nk \<open>t = ''Chorus'' \<and> _\<close> by (auto simp: Let_def)
      next
        case False
        show ?thesis
        proof (cases "find_extension idx ?ek 1 all")
          case None
          then show ?thesis using Cons.prems nk False \<open>t = ''Chorus'' \<and> _\<close>
            by (auto simp: Let_def)
        next
          case (Some j)
          from find_extension_bounds[OF Some] have "1 \<le> j \<and> j \<le> length all" by simp
          then show ?thesis using Cons.prems nk False Some \<open>t = ''Chorus'' \<and> _\<close>
            by (auto simp: Let_def)
        qed
      qed
    qed
  qed
qed

lemma dedup_section_step:
  assumes p: "parse_section_header (sec_header entry) = Inr (t, pre, n)"
    and fm: "match_of st entry t pre = (found, us1, ext)"
  shows "dedup_section st entry =
     Inr \<lparr>dd_type_stats =
            dict_update (dict_setdefault (dd_type_stats st) t (new_stat pre)) t
              ((stat_of (dd_type_stats st) t pre)
                 \<lparr>ts_count := ts_count (stat_of (dd_type_stats st) t pre) + repeat_count entry,
                  ts_unique := (case found of Some i \<Rightarrow> us1
                     | None \<Rightarrow> us1 @ [\<lparr>u_key = normalize_content (content_block entry),
                         u_lines = content_block entry, u_lines_clean = content_block entry,
                         u_extension_of = None\<rparr>])\<rparr>),
          dd_unique_order =
            (case found of
               Some i \<Rightarrow> if ext then order_add (dd_unique_order st) (t, length us1)
                         else dd_unique_order st
             | None \<Rightarrow> order_add (if ext then order_add (dd_unique_order st) (t, length us1)
                                   else dd_unique_order st) (t, length us1 + 1)),
          dd_occurrences = dd_occurrences st @
            replicate (repeat_count entry)
              \<lparr>occ_type = t, occ_prefix = pre,
               occ_unique_idx = (case found of Some i \<Rightarrow> i | None \<Rightarrow> length us1 + 1),
               occ_extension = ext\<rparr>\<rparr>"
proof -
  have so: "dict_get (dict_setdefault (dd_type_stats st) t (new_stat pre)) t (new_stat pre) =
        stat_of (dd_type_stats st) t pre"
    by (simp add: dict_get_def map_of_dict_setdefault stat_of_def split: option.splits)
  obtain blk cnt where e: "extract_repeated_block (clean_lines (sec_lines entry)) = (blk, cnt)"
    by (cases "extract_repeated_block (clean_lines (sec_lines entry))")
  then have bc: "content_block entry = blk" "repeat_count entry = cnt"
    by (simp_all add: content_block_def repeat_count_def)
  have fm': "find_match t blk (str_strip (str_join [nl] blk))
       (ts_unique (stat_of (dd_type_stats st) t pre)) 1
       (ts_unique (stat_of (dd_type_stats st) t pre)) = (found, us1, ext)"
    using fm bc by (simp add: match_of_def normalize_content_def Let_def)
  show ?thesis
    unfolding dedup_section_def p
    by (cases found)
       (simp_all add: e so[unfolded new_stat_def] fm'[unfolded One_nat_def] Let_def
          new_stat_def bc normalize_content_def)
qed

lemma registry_ok_append:
  assumes "registry_ok us"
    and "u_key e = normalize_content (u_lines_clean e)" "u_lines e = u_lines_clean e"
    and "\<forall>k. u_extension_of e = Some k \<longrightarrow> 1 \<le> k \<and> k \<le> length us"
  shows "registry_ok (us @ [e])"
  using assms unfolding registry_ok_def by (auto simp: nth_append less_Suc_eq)

lemma find_match_registry_ok:
  assumes "find_match t cc ck all idx us = (r, all', ext)"
    and "1 \<le> idx" "idx + length us = length all + 1" "registry_ok all"
  shows "registry_ok all'"
  using assms
proof (induction us arbitrary: idx)
  case Nil
  then show ?case by auto
next
  case (Cons u us)
  have le: "idx \<le> length all" using Cons.prems by simp
  show ?case
  proof (cases "u_key u = ck")
    case True
    then show ?thesis using Cons.prems by auto
  next
    case False
    note nk = this
    show ?thesis
    proof (cases "t = ''Chorus'' \<and> starts_with_lines cc (u_lines_clean u)")
      case False
      then have "find_match t cc ck all (idx + 1) us = (r, all', ext)"
        using Cons.prems nk by auto
      from Cons.IH[OF this] Cons.prems show ?thesis by simp
    next
      case True
      let ?el = "drop (length (u_lines_clean u)) cc"
      let ?ek = "str_strip (str_join [nl] ?el)"
      let ?e = "\<lparr>u_key = ?ek, u_lines = ?el, u_lines_clean = ?el, u_extension_of = Some idx\<rparr>"
      have ok: "registry_ok (all @ [?e])"
        by (rule registry_ok_append[OF Cons.prems(4)])
           (use le Cons.prems(2) in \<open>simp_all add: normalize_content_def\<close>)
      have "all' = all \<or> all' = all @ [?e]"
        using Cons.prems(1) nk True by (auto simp: Let_def split: if_splits option.splits)
      then show ?thesis using ok Cons.prems(4) by auto
    qed
  qed
qed

lemma dedup_section_parse:
  assumes "dedup_section st entry = Inr st'"
  obtains t pre n where "parse_section_header (sec_header entry) = Inr (t, pre, n)"
  using assms unfolding dedup_section_def
  by (cases "parse_section_header (sec_header entry)") auto

lemma stat_of_registry_ok:
  assumes "\<forall>ts\<in>set tss. registry_ok (ts_unique (snd ts))"
  shows "registry_ok (ts_unique (stat_of tss t pre))"
proof (cases "map_of tss t")
  case None
  then show ?thesis by (simp add: stat_of_def new_stat_def registry_ok_def)
next
  case (Some s)
  then have "(t, s) \<in> set tss" by (rule map_of_SomeD)
  then show ?thesis using assms Some by (force simp: stat_of_def)
qed

text \<open>The facts about one turn of the section loop that the invariants need.\<close>

lemma dedup_section_facts:
  assumes step: "dedup_section st entry = Inr st'"
    and ok: "\<forall>ts\<in>set (dd_type_stats st). registry_ok (ts_unique (snd ts))"
  obtains t pre n idx us' ext where
    "parse_section_header (sec_header entry) = Inr (t, pre, n)"
    "dd_type_stats st' =
       dict_update (dict_setdefault (dd_type_stats st) t (new_stat pre)) t
         \<lparr>ts_unique = us', ts_prefix = ts_prefix (stat_of (dd_type_stats st) t pre),
          ts_count = ts_count (stat_of (dd_type_stats st) t pre) + repeat_count entry\<rparr>"
    "\<exists>ex. us' = ts_unique (stat_of (dd_type_stats st) t pre) @ ex"
    "registry_ok us'"
    "1 \<le> idx" "idx \<le> length us'"
    "dd_occurrences st' = dd_occurrences st @
       replicate (repeat_count entry)
         \<lparr>occ_type = t, occ_prefix = pre, occ_unique_idx = idx, occ_extension = ext\<rparr>"
    "set (dd_unique_order st') \<subseteq> set (dd_unique_order st) \<union> {(t, length us')}"
proof -
  from step obtain t pre n where p: "parse_section_header (sec_header entry) = Inr (t, pre, n)"
    by (rule dedup_section_parse)
  let ?old = "stat_of (dd_type_stats st) t pre"
  let ?us = "ts_unique ?old"
  obtain found us1 ext where fm: "match_of st entry t pre = (found, us1, ext)"
    by (cases "match_of st entry t pre")
  then have fm': "find_match t (content_block entry) (normalize_content (content_block entry))
      ?us 1 ?us = (found, us1, ext)"
    by (simp add: match_of_def Let_def)
  have okus: "registry_ok ?us" by (rule stat_of_registry_ok[OF ok])
  have shape: "(us1 = ?us \<and> \<not> ext \<or> (\<exists>e. us1 = ?us @ [e] \<and> ext \<and> found = Some (length us1))) \<and>
         (\<forall>m. found = Some m \<longrightarrow> 1 \<le> m \<and> m \<le> length us1) \<and> (found = None \<longrightarrow> us1 = ?us)"
    by (rule find_match_shape[OF fm']) simp_all
  have ok1: "registry_ok us1" by (rule find_match_registry_ok[OF fm' _ _ okus]) simp_all
  let ?new = "\<lparr>u_key = normalize_content (content_block entry),
                u_lines = content_block entry, u_lines_clean = content_block entry,
                u_extension_of = None\<rparr>"
  let ?us' = "case found of Some i \<Rightarrow> us1 | None \<Rightarrow> us1 @ [?new]"
  let ?idx = "case found of Some i \<Rightarrow> i | None \<Rightarrow> length us1 + 1"
  have st': "st' = \<lparr>dd_type_stats =
            dict_update (dict_setdefault (dd_type_stats st) t (new_stat pre)) t
              (?old\<lparr>ts_count := ts_count ?old + repeat_count entry, ts_unique := ?us'\<rparr>),
          dd_unique_order =
            (case found of
               Some i \<Rightarrow> if ext then order_add (dd_unique_order st) (t, length us1)
                         else dd_unique_order st
             | None \<Rightarrow> order_add (if ext then order_add (dd_unique_order st) (t, length us1)
                                   else dd_unique_order st) (t, length us1 + 1)),
          dd_occurrences = dd_occurrences st @
            replicate (repeat_count entry)
              \<lparr>occ_type = t, occ_prefix = pre, occ_unique_idx = ?idx, occ_extension = ext\<rparr>\<rparr>"
    using dedup_section_step[OF p fm] step by simp
  have a: "dd_type_stats st' =
       dict_update (dict_setdefault (dd_type_stats st) t (new_stat pre)) t
         \<lparr>ts_unique = ?us', ts_prefix = ts_prefix ?old,
          ts_count = ts_count ?old + repeat_count entry\<rparr>"
    by (subst st') (cases ?old, simp)
  have b: "\<exists>ex. ?us' = ?us @ ex" using shape by (cases found) auto
  have c: "registry_ok ?us'"
  proof (cases found)
    case None
    have "registry_ok (us1 @ [?new])" by (rule registry_ok_append[OF ok1]) simp_all
    then show ?thesis using None by simp
  next
    case (Some i)
    then show ?thesis using ok1 by simp
  qed
  have d: "1 \<le> ?idx" "?idx \<le> length ?us'" using shape by (cases found; simp)+
  have e: "dd_occurrences st' = dd_occurrences st @
       replicate (repeat_count entry)
         \<lparr>occ_type = t, occ_prefix = pre, occ_unique_idx = ?idx, occ_extension = ext\<rparr>"
    by (subst st') simp
  have f: "set (dd_unique_order st') \<subseteq> set (dd_unique_order st) \<union> {(t, length ?us')}"
    using shape by (subst st') (cases found; auto simp: order_add_def)
  show ?thesis using that[OF p a b c d e f] .
qed

lemma dedup_section_stats:
  assumes step: "dedup_section st entry = Inr st'" and inv: "dedup_inv st"
  obtains t pre n idx us' ext where
    "parse_section_header (sec_header entry) = Inr (t, pre, n)"
    "\<And>t'. map_of (dd_type_stats st') t' =
        (if t' = t then Some \<lparr>ts_unique = us',
            ts_prefix = ts_prefix (stat_of (dd_type_stats st) t pre),
            ts_count = ts_count (stat_of (dd_type_stats st) t pre) + repeat_count entry\<rparr>
         else map_of (dd_type_stats st) t')"
    "distinct (map fst (dd_type_stats st'))"
    "map fst (dd_type_stats st') =
       (if t \<in> set (map fst (dd_type_stats st)) then map fst (dd_type_stats st)
        else map fst (dd_type_stats st) @ [t])"
    "\<exists>ex. us' = ts_unique (stat_of (dd_type_stats st) t pre) @ ex"
    "registry_ok us'"
    "1 \<le> idx" "idx \<le> length us'"
    "dd_occurrences st' = dd_occurrences st @
       replicate (repeat_count entry)
         \<lparr>occ_type = t, occ_prefix = pre, occ_unique_idx = idx, occ_extension = ext\<rparr>"
    "set (dd_unique_order st') \<subseteq> set (dd_unique_order st) \<union> {(t, length us')}"
proof -
  have ok: "\<forall>ts\<in>set (dd_type_stats st). registry_ok (ts_unique (snd ts))"
    using inv by (simp add: dedup_inv_def)
  have dist: "distinct (map fst (dd_type_stats st))" using inv by (simp add: dedup_inv_def)
  show ?thesis
  proof (rule dedup_section_facts[OF step ok], goal_cases)
  case f: (1 t pre n idx us' ext)
  have keys: "map fst (dd_type_stats st') =
       (if t \<in> set (map fst (dd_type_stats st)) then map fst (dd_type_stats st)
        else map fst (dd_type_stats st) @ [t])"
    by (simp add: f(2) keys_dict_update keys_dict_setdefault)
  have d': "distinct (map fst (dd_type_stats st'))" using dist keys by auto
  have m: "\<And>t'. map_of (dd_type_stats st') t' =
        (if t' = t then Some \<lparr>ts_unique = us',
            ts_prefix = ts_prefix (stat_of (dd_type_stats st) t pre),
            ts_count = ts_count (stat_of (dd_type_stats st) t pre) + repeat_count entry\<rparr>
         else map_of (dd_type_stats st) t')"
    by (simp add: f(2) map_of_dict_update keys_dict_setdefault map_of_dict_setdefault)
  show ?thesis using that[OF f(1) m d' keys f(3) f(4) f(5) f(6) f(7) f(8)] .
  qed
qed

lemma dedup_section_inv:
  assumes step: "dedup_section st entry = Inr st'" and inv: "dedup_inv st"
  shows "dedup_inv st'"
proof -
  show ?thesis
  proof (rule dedup_section_stats[OF step inv], goal_cases)
  case g: (1 t pre n idx us' ext)
  note f = g(2) g(3) g(5) g(6) g(7) g(8) g(9) g(10)
  have grow: "\<And>t' s i. map_of (dd_type_stats st) t' = Some s \<Longrightarrow> i \<le> length (ts_unique s) \<Longrightarrow>
       \<exists>s'. map_of (dd_type_stats st') t' = Some s' \<and> i \<le> length (ts_unique s')"
  proof -
    fix t' s i assume a: "map_of (dd_type_stats st) t' = Some s" "i \<le> length (ts_unique s)"
    show "\<exists>s'. map_of (dd_type_stats st') t' = Some s' \<and> i \<le> length (ts_unique s')"
    proof (cases "t' = t")
      case True
      then have "stat_of (dd_type_stats st) t pre = s" using a by (simp add: stat_of_def)
      then obtain ex where "us' = ts_unique s @ ex" using f(3) by auto
      then show ?thesis using True a f(1) by simp
    next
      case False
      then show ?thesis using a f(1) by simp
    qed
  qed
  have r: "\<forall>ts\<in>set (dd_type_stats st'). registry_ok (ts_unique (snd ts))"
  proof
    fix ts assume ts: "ts \<in> set (dd_type_stats st')"
    obtain k v where kv: "ts = (k, v)" by (cases ts)
    then have mk: "map_of (dd_type_stats st') k = Some v" using ts f(2) by simp
    show "registry_ok (ts_unique (snd ts))"
    proof (cases "k = t")
      case True
      then show ?thesis using mk f(1) f(4) kv by auto
    next
      case False
      then have "map_of (dd_type_stats st) k = Some v" using mk f(1) by simp
      then have "(k, v) \<in> set (dd_type_stats st)" by (rule map_of_SomeD)
      then show ?thesis using inv kv by (force simp: dedup_inv_def)
    qed
  qed
  have o: "\<forall>oc\<in>set (dd_occurrences st').
         \<exists>s. map_of (dd_type_stats st') (occ_type oc) = Some s \<and>
             1 \<le> occ_unique_idx oc \<and> occ_unique_idx oc \<le> length (ts_unique s)"
  proof
    fix oc assume "oc \<in> set (dd_occurrences st')"
    then consider "oc \<in> set (dd_occurrences st)"
      | "oc = \<lparr>occ_type = t, occ_prefix = pre, occ_unique_idx = idx, occ_extension = ext\<rparr>"
      using f(7) by auto
    then show "\<exists>s. map_of (dd_type_stats st') (occ_type oc) = Some s \<and>
             1 \<le> occ_unique_idx oc \<and> occ_unique_idx oc \<le> length (ts_unique s)"
    proof cases
      case 1
      then obtain s where "map_of (dd_type_stats st) (occ_type oc) = Some s"
        "1 \<le> occ_unique_idx oc" "occ_unique_idx oc \<le> length (ts_unique s)"
        using inv unfolding dedup_inv_def by blast
      then show ?thesis using grow by blast
    next
      case 2
      then show ?thesis using f(1) f(5) f(6) by simp
    qed
  qed
  have u: "\<forall>ui\<in>set (dd_unique_order st').
         \<exists>s. map_of (dd_type_stats st') (fst ui) = Some s \<and>
             1 \<le> snd ui \<and> snd ui \<le> length (ts_unique s)"
  proof
    fix ui assume "ui \<in> set (dd_unique_order st')"
    then consider "ui \<in> set (dd_unique_order st)" | "ui = (t, length us')" using f(8) by auto
    then show "\<exists>s. map_of (dd_type_stats st') (fst ui) = Some s \<and>
             1 \<le> snd ui \<and> snd ui \<le> length (ts_unique s)"
    proof cases
      case 1
      then obtain s where "map_of (dd_type_stats st) (fst ui) = Some s"
        "1 \<le> snd ui" "snd ui \<le> length (ts_unique s)"
        using inv unfolding dedup_inv_def by blast
      then show ?thesis using grow by blast
    next
      case 2
      then show ?thesis using f(1) f(5) f(6) by simp
    qed
  qed
  show ?thesis unfolding dedup_inv_def using f(2) r o u by blast
  qed
qed

lemma dedup_inv_init: "dedup_inv \<lparr>dd_type_stats = [], dd_unique_order = [], dd_occurrences = []\<rparr>"
  by (simp add: dedup_inv_def)

lemma dedup_sections_inv:
  "dedup_sections st secs = Inr st' \<Longrightarrow> dedup_inv st \<Longrightarrow> dedup_inv st'"
proof (induction secs arbitrary: st)
  case Nil
  then show ?case by simp
next
  case (Cons entry secs)
  then obtain st1 where s1: "dedup_section st entry = Inr st1" "dedup_sections st1 secs = Inr st'"
    by (auto split: sum.splits)
  from Cons.IH[OF s1(2) dedup_section_inv[OF s1(1) Cons.prems(2)]] show ?case .
qed

lemma occurrences_of_Cons:
  "occurrences_of (entry # secs) (oc # os) =
     replicate (repeat_count entry) oc @ occurrences_of secs os"
  by (simp add: occurrences_of_def)

lemma type_count_step:
  assumes "\<And>t'. map_of ts' t' =
        (if t' = t then Some \<lparr>ts_unique = us', ts_prefix = p',
            ts_count = ts_count (stat_of ts t pre) + c\<rparr>
         else map_of ts t')"
  shows "type_count ts' t' = type_count ts t' + (if t' = t then c else 0)"
  using assms[of t'] by (auto simp: type_count_def stat_of_def new_stat_def split: option.splits)

lemma dedup_sections_history:
  assumes "dedup_sections st secs = Inr st'" "dedup_inv st"
  shows "(\<exists>os. length os = length secs \<and>
            dd_occurrences st' = dd_occurrences st @ occurrences_of secs os \<and>
            (\<forall>i<length secs. section_type (secs ! i) = Some (occ_type (os ! i)))) \<and>
         (\<forall>t. type_count (dd_type_stats st') t =
                type_count (dd_type_stats st) t +
                sum_list (map repeat_count (filter (\<lambda>e. section_type e = Some t) secs)))"
  using assms
proof (induction secs arbitrary: st)
  case Nil
  then show ?case by (simp add: occurrences_of_def)
next
  case (Cons entry secs)
  then obtain st1 where s1: "dedup_section st entry = Inr st1" "dedup_sections st1 secs = Inr st'"
    by (auto split: sum.splits)
  have inv1: "dedup_inv st1" by (rule dedup_section_inv[OF s1(1) Cons.prems(2)])
  from Cons.IH[OF s1(2) inv1] obtain os where os: "length os = length secs"
      "dd_occurrences st' = dd_occurrences st1 @ occurrences_of secs os"
      "\<forall>i<length secs. section_type (secs ! i) = Some (occ_type (os ! i))"
    and cnt: "\<forall>t. type_count (dd_type_stats st') t =
                type_count (dd_type_stats st1) t +
                sum_list (map repeat_count (filter (\<lambda>e. section_type e = Some t) secs))"
    by blast
  show ?case
  proof (rule dedup_section_stats[OF s1(1) Cons.prems(2)], goal_cases)
    case f: (1 t pre n idx us' ext)
    let ?oc = "\<lparr>occ_type = t, occ_prefix = pre, occ_unique_idx = idx, occ_extension = ext\<rparr>"
    have ty: "section_type entry = Some t" using f(1) by (simp add: section_type_def)
    have a: "length (?oc # os) = length (entry # secs)" using os(1) by simp
    have b: "dd_occurrences st' = dd_occurrences st @ occurrences_of (entry # secs) (?oc # os)"
      using os(2) f(9) by (simp add: occurrences_of_Cons)
    have c: "\<forall>i<length (entry # secs). section_type ((entry # secs) ! i) = Some (occ_type ((?oc # os) ! i))"
      using os(3) ty by (auto simp: nth_Cons split: nat.splits)
    have d: "\<forall>t'. type_count (dd_type_stats st') t' =
                type_count (dd_type_stats st) t' +
                sum_list (map repeat_count (filter (\<lambda>e. section_type e = Some t') (entry # secs)))"
      using cnt type_count_step[OF f(2)] ty by auto
    show ?case using a b c d by blast
  qed
qed

text \<open>The display map.\<close>

lemma fst_display_entry_of: "fst (display_entry_of t s nr (i, u)) = (t, i)"
  by (simp add: display_entry_of_def Let_def)

lemma display_entries_keys:
  "map fst (map (display_entry_of t s nr) (zip [a..<a + length us] us)) =
     map (\<lambda>i. (t, i)) [a..<a + length us]"
proof -
  have "map fst (map (display_entry_of t s nr) (zip [a..<a + length us] us)) =
        map (\<lambda>iu. (t, fst iu)) (zip [a..<a + length us] us)"
    by (simp add: fst_display_entry_of case_prod_beta' comp_def)
       (metis fst_display_entry_of prod.collapse)
  also have "\<dots> = map (\<lambda>i. (t, i)) (map fst (zip [a..<a + length us] us))"
    by (simp only: map_map comp_def)
  also have "map fst (zip [a..<a + length us] us) = [a..<a + length us]" by simp
  finally show ?thesis .
qed

lemma display_entries_map_of:
  assumes "1 \<le> idx" "idx \<le> length us"
  shows "map_of (rev (map (display_entry_of t s nr) (zip [1..<1 + length us] us))) (t, idx) =
           Some (snd (display_entry_of t s nr (idx, us ! (idx - 1))))"
proof -
  let ?xs = "map (display_entry_of t s nr) (zip [1..<1 + length us] us)"
  have keys: "map fst ?xs = map (\<lambda>i. (t, i)) [1..<1 + length us]" by (rule display_entries_keys)
  have "distinct (map fst ?xs)" unfolding keys by (simp add: distinct_map inj_on_def)
  then have d: "distinct (map fst (rev ?xs))" by (simp add: rev_map[symmetric])
  have i: "idx - 1 < length (zip [1..<1 + length us] us)" using assms by simp
  have "zip [1..<1 + length us] us ! (idx - 1) = ([1..<1 + length us] ! (idx - 1), us ! (idx - 1))"
    by (rule nth_zip) (use assms in simp_all)
  also have "[1..<1 + length us] ! (idx - 1) = 1 + (idx - 1)" by (rule nth_upt) (use assms in simp)
  finally have "zip [1..<1 + length us] us ! (idx - 1) = (idx, us ! (idx - 1))" using assms by simp
  then have "(idx, us ! (idx - 1)) \<in> set (zip [1..<1 + length us] us)" using i by (metis nth_mem)
  then have "display_entry_of t s nr (idx, us ! (idx - 1)) \<in> set (rev ?xs)" by simp
  then have "((t, idx), snd (display_entry_of t s nr (idx, us ! (idx - 1)))) \<in> set (rev ?xs)"
    by (metis fst_display_entry_of prod.collapse)
  then show ?thesis using d by (simp only: map_of_eq_Some_iff)
qed

lemma display_entries_other:
  assumes "t' \<noteq> t"
  shows "map_of (rev (map (display_entry_of t s nr) (zip [1..<1 + length us] us))) (t', idx) = None"
proof -
  have "(t', idx) \<notin> fst ` set (rev (map (display_entry_of t s nr) (zip [1..<1 + length us] us)))"
    using assms by (auto simp: fst_display_entry_of image_iff)
  then show ?thesis by (simp add: map_of_eq_None_iff)
qed

lemma needs_numbering_numbered:
  "map_of ts t = Some s \<Longrightarrow> needs_numbering ts t = Inr (numbered t s)"
  by (auto simp: needs_numbering_def numbered_def numbering_types_def)

lemma display_entry_fields:
  assumes "1 \<le> idx"
  shows "snd (display_entry_of t s (numbered t s) (idx, u)) =
     \<lparr>de_display_name = (if numbered t s then t @ '' '' @ str_of_nat idx else t),
      de_token = (if numbered t s then ts_prefix s @ str_of_nat idx else ts_prefix s),
      de_lines = u_lines u, de_extension_of = u_extension_of u\<rparr>"
  using assms by (auto simp: display_entry_of_def Let_def numbered_def numbering_types_def)

lemma build_display_map_lookup:
  assumes "build_display_map ts items acc = Inr dm"
    and "distinct (map fst items)"
    and "\<forall>item\<in>set items. map_of ts (fst item) = Some (snd item)"
  shows "(\<forall>item\<in>set items. \<forall>idx. 1 \<le> idx \<and> idx \<le> length (ts_unique (snd item)) \<longrightarrow>
            map_of dm (fst item, idx) =
              Some (snd (display_entry_of (fst item) (snd item) (numbered (fst item) (snd item))
                     (idx, ts_unique (snd item) ! (idx - 1))))) \<and>
         (\<forall>t idx. t \<notin> fst ` set items \<longrightarrow> map_of dm (t, idx) = map_of acc (t, idx))"
  using assms
proof (induction items arbitrary: acc)
  case Nil
  then show ?case by simp
next
  case (Cons item items)
  obtain t1 s1 where it: "item = (t1, s1)" by (cases item)
  have nn: "needs_numbering ts t1 = Inr (numbered t1 s1)"
    using Cons.prems(3) it by (simp add: needs_numbering_numbered)
  let ?es = "rev (map (display_entry_of t1 s1 (numbered t1 s1))
                    (zip [1..<1 + length (ts_unique s1)] (ts_unique s1)))"
  have b: "build_display_map ts items (?es @ acc) = Inr dm"
    using Cons.prems(1) it nn by simp
  have d: "distinct (map fst items)" and notin: "t1 \<notin> fst ` set items"
    using Cons.prems(2) it by auto
  have m: "\<forall>item\<in>set items. map_of ts (fst item) = Some (snd item)" using Cons.prems(3) by simp
  note ih = Cons.IH[OF b d m]
  have one: "\<forall>idx. 1 \<le> idx \<and> idx \<le> length (ts_unique s1) \<longrightarrow>
       map_of dm (t1, idx) =
         Some (snd (display_entry_of t1 s1 (numbered t1 s1) (idx, ts_unique s1 ! (idx - 1))))"
  proof (intro allI impI)
    fix idx assume r: "1 \<le> idx \<and> idx \<le> length (ts_unique s1)"
    have "map_of dm (t1, idx) = map_of (?es @ acc) (t1, idx)" using ih notin by blast
    also have "\<dots> = Some (snd (display_entry_of t1 s1 (numbered t1 s1) (idx, ts_unique s1 ! (idx - 1))))"
      using display_entries_map_of[of idx "ts_unique s1" t1 s1 "numbered t1 s1"] r by simp
    finally show "map_of dm (t1, idx) =
         Some (snd (display_entry_of t1 s1 (numbered t1 s1) (idx, ts_unique s1 ! (idx - 1))))" .
  qed
  have other: "\<forall>t idx. t \<notin> fst ` set (item # items) \<longrightarrow> map_of dm (t, idx) = map_of acc (t, idx)"
  proof (intro allI impI)
    fix t idx assume n: "t \<notin> fst ` set (item # items)"
    then have "t \<noteq> t1" "t \<notin> fst ` set items" using it by auto
    then have "map_of dm (t, idx) = map_of (?es @ acc) (t, idx)" using ih by blast
    also have "\<dots> = map_of acc (t, idx)"
      using display_entries_other[OF \<open>t \<noteq> t1\<close>, of s1 "numbered t1 s1" "ts_unique s1" idx]
      by (simp add: map_add_def)
    finally show "map_of dm (t, idx) = map_of acc (t, idx)" .
  qed
  show ?case using one other ih it by auto
qed

lemma build_display_map_succeeds:
  assumes "\<forall>item\<in>set items. map_of ts (fst item) = Some (snd item)"
  shows "\<exists>dm. build_display_map ts items acc = Inr dm"
  using assms
proof (induction items arbitrary: acc)
  case Nil
  then show ?case by simp
next
  case (Cons item items)
  obtain t1 s1 where it: "item = (t1, s1)" by (cases item)
  then have "needs_numbering ts t1 = Inr (numbered t1 s1)"
    using Cons.prems by (simp add: needs_numbering_numbered)
  then show ?case using Cons it by simp
qed

lemma display_map_lookup:
  assumes "build_display_map ts ts [] = Inr dm" "distinct (map fst ts)"
    and "map_of ts t = Some s" "1 \<le> idx" "idx \<le> length (ts_unique s)"
  shows "map_of dm (t, idx) = Some (display_of t s idx)"
proof -
  have m: "\<forall>item\<in>set ts. map_of ts (fst item) = Some (snd item)"
    using assms(2) by auto
  have "(t, s) \<in> set ts" using assms(3) by (rule map_of_SomeD)
  with build_display_map_lookup[OF assms(1) assms(2) m] assms(4,5)
  have "map_of dm (t, idx) =
      Some (snd (display_entry_of t s (numbered t s) (idx, ts_unique s ! (idx - 1))))"
    by force
  then show ?thesis using display_entry_fields[OF assms(4)] by (simp add: display_of_def)
qed

lemma flow_tokens_map:
  assumes "build_display_map ts ts [] = Inr dm" "distinct (map fst ts)"
    and "\<forall>oc\<in>set occs. \<exists>s. map_of ts (occ_type oc) = Some s \<and>
             1 \<le> occ_unique_idx oc \<and> occ_unique_idx oc \<le> length (ts_unique s)"
  shows "flow_tokens dm occs = map (occurrence_token ts) occs"
  using assms(3)
proof (induction occs)
  case Nil
  then show ?case by (simp add: flow_tokens_def)
next
  case (Cons oc occs)
  then obtain s where s: "map_of ts (occ_type oc) = Some s"
    "1 \<le> occ_unique_idx oc" "occ_unique_idx oc \<le> length (ts_unique s)" by auto
  have "map_of dm (occ_type oc, occ_unique_idx oc) = Some (display_of (occ_type oc) s (occ_unique_idx oc))"
    by (rule display_map_lookup[OF assms(1,2) s])
  moreover have "flow_tokens dm occs = map (occurrence_token ts) occs" using Cons by simp
  ultimately show ?case using s(1) by (simp add: flow_tokens_def occurrence_token_def)
qed

lemma section_blocks_succeeds:
  assumes "build_display_map ts ts [] = Inr dm" "distinct (map fst ts)"
    and "\<forall>ui\<in>set ids. \<exists>s. map_of ts (fst ui) = Some s \<and>
             1 \<le> snd ui \<and> snd ui \<le> length (ts_unique s)"
  shows "\<exists>blocks. section_blocks dm ids = Inr blocks"
  using assms(3)
proof (induction ids)
  case Nil
  then show ?case by simp
next
  case (Cons ui ids)
  obtain t i where ui: "ui = (t, i)" by (cases ui)
  then obtain s where s: "map_of ts t = Some s" "1 \<le> i" "i \<le> length (ts_unique s)"
    using Cons.prems by auto
  have "map_of dm (t, i) = Some (display_of t s i)" by (rule display_map_lookup[OF assms(1,2) s])
  moreover obtain blocks where "section_blocks dm ids = Inr blocks" using Cons by auto
  ultimately show ?case using ui by simp
qed

lemma structure_body_Inr:
  assumes d: "dedup_sections dedup_init (sp_sections sp) = Inr st"
  shows "\<exists>sb. structure_body sp = Inr sb \<and> s_state sb = st \<and>
           s_tokens sb = map (occurrence_token (dd_type_stats st)) (dd_occurrences st) \<and>
           build_display_map (dd_type_stats st) (dd_type_stats st) [] = Inr (s_display_map sb)"
proof -
  have inv: "dedup_inv st"
    by (rule dedup_sections_inv[OF d]) (simp add: dedup_init_def dedup_inv_init)
  then have dist: "distinct (map fst (dd_type_stats st))" by (simp add: dedup_inv_def)
  then have "\<forall>item\<in>set (dd_type_stats st). map_of (dd_type_stats st) (fst item) = Some (snd item)"
    by auto
  then obtain dm where dm: "build_display_map (dd_type_stats st) (dd_type_stats st) [] = Inr dm"
    using build_display_map_succeeds by blast
  obtain blocks where bl: "section_blocks dm (dd_unique_order st) = Inr blocks"
    using section_blocks_succeeds[OF dm dist] inv unfolding dedup_inv_def by blast
  have ft: "flow_tokens dm (dd_occurrences st) = map (occurrence_token (dd_type_stats st)) (dd_occurrences st)"
    using flow_tokens_map[OF dm dist] inv unfolding dedup_inv_def by blast
  show ?thesis
    using d dm bl ft by (simp add: structure_body_def dedup_init_def)
qed

lemma structure_body_Inr_iff:
  "structure_body sp = Inr sb \<Longrightarrow> dedup_sections dedup_init (sp_sections sp) = Inr (s_state sb)"
  by (auto simp: structure_body_def dedup_init_def split: sum.splits)

text \<open>The sections the splitter finds are as many as the header lines it counts.\<close>

lemma split_line_count:
  assumes "sp_headers_found st = length (sp_sections st) + (case sp_current_header st of None \<Rightarrow> 0 | Some h \<Rightarrow> 1)"
  shows "sp_headers_found (split_line st line) =
         length (sp_sections (split_line st line)) +
         (case sp_current_header (split_line st line) of None \<Rightarrow> 0 | Some h \<Rightarrow> 1)"
  using assms by (auto simp: split_line_def split: option.splits)

lemma foldl_split_line_count:
  assumes "sp_headers_found st = length (sp_sections st) + (case sp_current_header st of None \<Rightarrow> 0 | Some h \<Rightarrow> 1)"
  shows "sp_headers_found (foldl split_line st ls) =
         length (sp_sections (foldl split_line st ls)) +
         (case sp_current_header (foldl split_line st ls) of None \<Rightarrow> 0 | Some h \<Rightarrow> 1)"
  using assms by (induction ls arbitrary: st) (simp_all add: split_line_count)

lemma split_sections_count: "sp_headers_found (split_sections body) = length (sp_sections (split_sections body))"
proof -
  let ?st0 = "\<lparr>sp_sections = [], sp_leading_lines = [], sp_current_header = None,
                  sp_current_lines = [], sp_headers_found = 0\<rparr>"
  have "sp_headers_found (foldl split_line ?st0 (str_split_nl body)) =
         length (sp_sections (foldl split_line ?st0 (str_split_nl body))) +
         (case sp_current_header (foldl split_line ?st0 (str_split_nl body)) of None \<Rightarrow> 0 | Some h \<Rightarrow> 1)"
    by (rule foldl_split_line_count) simp
  then show ?thesis by (simp add: split_sections_def Let_def split: option.splits)
qed

lemma length_occurrences_of:
  "length os = length secs \<Longrightarrow> length (occurrences_of secs os) = sum_list (map repeat_count secs)"
proof (induction secs arbitrary: os)
  case Nil
  then show ?case by (simp add: occurrences_of_def)
next
  case (Cons entry secs)
  then obtain oc os' where "os = oc # os'" by (cases os) auto
  then show ?case using Cons by (simp add: occurrences_of_Cons)
qed

lemma rebuild_parts_structured:
  assumes "rebuild_parts tab artist_fb title_fb file_base = Inr r"
    and "0 < sp_headers_found (tab_split tab)"
  shows "\<exists>sb. structure_body (tab_split tab) = Inr sb \<and> r_body r = s_body sb \<and>
           (s_tokens sb \<noteq> [] \<longrightarrow> r_meta r ''Flow'' = str_join '', '' (s_tokens sb))"
  using assms
  unfolding rebuild_parts_def tab_split_def tab_body_def Let_def
  by (auto split: sum.splits prod.splits if_splits)

lemma rebuild_parts_headerless:
  assumes "rebuild_parts tab artist_fb title_fb file_base = Inr r"
    and "sp_headers_found (tab_split tab) = 0"
    and "read_meta (str_split_nl tab) ''Flow'' \<noteq> []"
  shows "r_meta r ''Flow'' = read_meta (str_split_nl tab) ''Flow''"
  using assms
  unfolding rebuild_parts_def tab_split_def tab_body_def Let_def default_meta_def
  by (auto split: sum.splits prod.splits if_splits)

lemma structured_flow:
  assumes rp: "rebuild_parts tab artist_fb title_fb file_base = Inr r"
    and hf: "0 < sp_headers_found (tab_split tab)"
  shows "\<exists>sb os. structure_body (tab_split tab) = Inr sb \<and> r_body r = s_body sb \<and>
           r_meta r ''Flow'' = str_join '', '' (s_tokens sb) \<and> s_tokens sb \<noteq> [] \<and>
           s_tokens sb = map (occurrence_token (dd_type_stats (s_state sb))) (dd_occurrences (s_state sb)) \<and>
           length os = length (sp_sections (tab_split tab)) \<and>
           dd_occurrences (s_state sb) = occurrences_of (sp_sections (tab_split tab)) os \<and>
           (\<forall>i<length (sp_sections (tab_split tab)).
              section_type (sp_sections (tab_split tab) ! i) = Some (occ_type (os ! i))) \<and>
           length (s_tokens sb) = sum_list (map repeat_count (sp_sections (tab_split tab)))"
proof -
  let ?secs = "sp_sections (tab_split tab)"
  from rebuild_parts_structured[OF rp hf] obtain sb where sb:
    "structure_body (tab_split tab) = Inr sb" "r_body r = s_body sb"
    "s_tokens sb \<noteq> [] \<longrightarrow> r_meta r ''Flow'' = str_join '', '' (s_tokens sb)" by blast
  have d: "dedup_sections dedup_init ?secs = Inr (s_state sb)"
    by (rule structure_body_Inr_iff[OF sb(1)])
  from structure_body_Inr[OF d] sb(1)
  have tk: "s_tokens sb = map (occurrence_token (dd_type_stats (s_state sb))) (dd_occurrences (s_state sb))"
    by auto
  have "dedup_inv dedup_init" by (simp add: dedup_init_def dedup_inv_init)
  from dedup_sections_history[OF d this]
  have "\<exists>os. length os = length ?secs \<and>
            dd_occurrences (s_state sb) = dd_occurrences dedup_init @ occurrences_of ?secs os \<and>
            (\<forall>i<length ?secs. section_type (?secs ! i) = Some (occ_type (os ! i)))"
    by (rule conjunct1)
  then obtain os where os0:
    "length os = length ?secs"
    "dd_occurrences (s_state sb) = dd_occurrences dedup_init @ occurrences_of ?secs os"
    "\<forall>i<length ?secs. section_type (?secs ! i) = Some (occ_type (os ! i))"
    by (elim exE conjE)
  have os: "length os = length ?secs"
    "dd_occurrences (s_state sb) = occurrences_of ?secs os"
    "\<forall>i<length ?secs. section_type (?secs ! i) = Some (occ_type (os ! i))"
    using os0 by (simp_all add: dedup_init_def)
  have len: "length (s_tokens sb) = sum_list (map repeat_count ?secs)"
    using tk os(1,2) by (simp add: length_occurrences_of)
  have "?secs \<noteq> []" using hf by (simp add: tab_split_def split_sections_count)
  then obtain e es where "?secs = e # es" by (cases ?secs) auto
  then have "0 < sum_list (map repeat_count ?secs)" using repeat_count_pos[of e] by simp
  then have "0 < length (s_tokens sb)" using len by simp
  then have ne: "s_tokens sb \<noteq> []" by simp
  have fl: "r_meta r ''Flow'' = str_join '', '' (s_tokens sb)" using sb(3) ne by simp
  show ?thesis
    by (rule exI[of _ sb], rule exI[of _ os]) (intro conjI sb(1) sb(2) fl ne tk os len)
qed

lemma dedup_section_kind:
  assumes "section_kind e = section_kind e'" "sec_lines e = sec_lines e'"
  shows "dedup_section st e = dedup_section st e'"
proof (cases "parse_section_header (sec_header e)")
  case (Inl err)
  then have "parse_section_header (sec_header e') = Inl err"
    using assms(1) by (auto simp: section_kind_def split: sum.splits)
  then show ?thesis using Inl by (simp add: dedup_section_def)
next
  case (Inr res)
  obtain t p n where res: "res = (t, p, n)" by (cases res)
  then obtain n' where "parse_section_header (sec_header e') = Inr (t, p, n')"
    using assms(1) Inr by (auto simp: section_kind_def split: sum.splits)
  then show ?thesis using Inr res assms(2) by (simp add: dedup_section_def)
qed

lemma dedup_sections_kind:
  assumes "map section_kind secs = map section_kind secs'" "map sec_lines secs = map sec_lines secs'"
  shows "dedup_sections st secs = dedup_sections st secs'"
  using assms
proof (induction secs arbitrary: secs' st)
  case Nil
  then show ?case by simp
next
  case (Cons e secs)
  then obtain e' es' where s': "secs' = e' # es'" by (cases secs') auto
  have k: "section_kind e = section_kind e'" "sec_lines e = sec_lines e'"
    and ks: "map section_kind secs = map section_kind es'" "map sec_lines secs = map sec_lines es'"
    using Cons.prems s' by simp_all
  have h: "dedup_section st e = dedup_section st e'" by (rule dedup_section_kind[OF k])
  have ih: "\<And>st1. dedup_sections st1 secs = dedup_sections st1 es'"
    by (rule Cons.IH[OF ks])
  show ?case unfolding s' by (cases "dedup_section st e'") (simp_all add: h ih)
qed

lemma type_counts_total:
  assumes "structure_body sp = Inr sb" "map_of (dd_type_stats (s_state sb)) t = Some stats"
  shows "ts_count stats =
     sum_list (map repeat_count (filter (\<lambda>e. section_type e = Some t) (sp_sections sp)))"
proof -
  have d: "dedup_sections dedup_init (sp_sections sp) = Inr (s_state sb)"
    by (rule structure_body_Inr_iff[OF assms(1)])
  have "dedup_inv dedup_init" by (simp add: dedup_init_def dedup_inv_init)
  from dedup_sections_history[OF d this]
  have "\<forall>t. type_count (dd_type_stats (s_state sb)) t =
        type_count (dd_type_stats dedup_init) t +
        sum_list (map repeat_count (filter (\<lambda>e. section_type e = Some t) (sp_sections sp)))"
    by (rule conjunct2)
  then have "type_count (dd_type_stats (s_state sb)) t =
        type_count (dd_type_stats dedup_init) t +
        sum_list (map repeat_count (filter (\<lambda>e. section_type e = Some t) (sp_sections sp)))"
    by (rule spec)
  then show ?thesis using assms(2) by (simp add: type_count_def dedup_init_def)
qed

lemma display_entries_numbered:
  assumes "structure_body sp = Inr sb" "map_of (dd_type_stats (s_state sb)) t = Some stats"
    and "1 \<le> idx" "idx \<le> length (ts_unique stats)"
  shows "map_of (s_display_map sb) (t, idx) = Some (display_of t stats idx)"
proof -
  have d: "dedup_sections dedup_init (sp_sections sp) = Inr (s_state sb)"
    by (rule structure_body_Inr_iff[OF assms(1)])
  have inv: "dedup_inv (s_state sb)"
    by (rule dedup_sections_inv[OF d]) (simp add: dedup_init_def dedup_inv_init)
  then have dist: "distinct (map fst (dd_type_stats (s_state sb)))" by (simp add: dedup_inv_def)
  from structure_body_Inr[OF d] assms(1)
  have dm: "build_display_map (dd_type_stats (s_state sb)) (dd_type_stats (s_state sb)) [] =
      Inr (s_display_map sb)" by auto
  show ?thesis by (rule display_map_lookup[OF dm dist assms(2,3,4)])
qed

lemma flow_field_Some: "flow_field res = Some v \<Longrightarrow> \<exists>r. res = Inr r \<and> r_meta r ''Flow'' = v"
  by (cases res) (auto simp: flow_field_def)

text \<open>
  Claim C8. When the body has at least one section header, the Flow field of the output
  is the computed token sequence, which is not empty, whatever Flow value the input's
  metadata block supplied; when the body has no section header, a non-empty supplied
  Flow value is the Flow field of the output.
\<close>

theorem supplied_flow_discarded:
  "(rebuild_parts tab artist_fb title_fb file_base = Inr r \<and> 0 < sp_headers_found (tab_split tab) \<longrightarrow>
      (\<exists>sb. structure_body (tab_split tab) = Inr sb \<and> s_tokens sb \<noteq> [] \<and>
         s_tokens sb = flow_tokens (s_display_map sb) (dd_occurrences (s_state sb)) \<and>
         r_meta r ''Flow'' = str_join '', '' (s_tokens sb))) \<and>
   (rebuild_parts tab artist_fb title_fb file_base = Inr r \<and> sp_headers_found (tab_split tab) = 0 \<and>
    read_meta (str_split_nl tab) ''Flow'' \<noteq> [] \<longrightarrow>
      r_meta r ''Flow'' = read_meta (str_split_nl tab) ''Flow'')"
proof (intro conjI impI)
  assume a: "rebuild_parts tab artist_fb title_fb file_base = Inr r \<and> 0 < sp_headers_found (tab_split tab)"
  then have rp: "rebuild_parts tab artist_fb title_fb file_base = Inr r"
    and hf: "0 < sp_headers_found (tab_split tab)" by simp_all
  from structured_flow[OF rp hf] obtain sb where f:
    "structure_body (tab_split tab) = Inr sb"
    "r_meta r ''Flow'' = str_join '', '' (s_tokens sb)" "s_tokens sb \<noteq> []"
    by (elim exE conjE)
  have "s_tokens sb = flow_tokens (s_display_map sb) (dd_occurrences (s_state sb))"
    using f(1) by (auto simp: structure_body_def split: sum.splits)
  then show "\<exists>sb. structure_body (tab_split tab) = Inr sb \<and> s_tokens sb \<noteq> [] \<and>
         s_tokens sb = flow_tokens (s_display_map sb) (dd_occurrences (s_state sb)) \<and>
         r_meta r ''Flow'' = str_join '', '' (s_tokens sb)"
    using f by blast
next
  assume "rebuild_parts tab artist_fb title_fb file_base = Inr r \<and> sp_headers_found (tab_split tab) = 0 \<and>
    read_meta (str_split_nl tab) ''Flow'' \<noteq> []"
  then show "r_meta r ''Flow'' = read_meta (str_split_nl tab) ''Flow''"
    using rebuild_parts_headerless by blast
qed

theorem supplied_flow_discarded_witness:
  "read_meta (str_split_nl three_verses) ''Flow'' = ''x y'' \<and>
   0 < sp_headers_found (tab_split three_verses) \<and>
   (\<exists>r. rebuild_parts three_verses [] [] [] = Inr r \<and> r_meta r ''Flow'' = ''V1, V1, V1'' \<and>
      (\<exists>sb. structure_body (tab_split three_verses) = Inr sb \<and> s_tokens sb \<noteq> [] \<and>
         s_tokens sb = flow_tokens (s_display_map sb) (dd_occurrences (s_state sb)) \<and>
         r_meta r ''Flow'' = str_join '', '' (s_tokens sb))) \<and>
   sp_headers_found (tab_split no_headers) = 0 \<and>
   read_meta (str_split_nl no_headers) ''Flow'' = ''A B A'' \<and>
   (\<exists>r. rebuild_parts no_headers [] [] [] = Inr r \<and> r_meta r ''Flow'' = ''A B A'')"
proof -
  have s: "read_meta (str_split_nl three_verses) ''Flow'' = ''x y''" by code_simp
  have h: "0 < sp_headers_found (tab_split three_verses)" by code_simp
  have "flow_field (rebuild_parts three_verses [] [] []) = Some ''V1, V1, V1''" by code_simp
  then obtain r where r: "rebuild_parts three_verses [] [] [] = Inr r"
    "r_meta r ''Flow'' = ''V1, V1, V1''" using flow_field_Some by blast
  have h0: "sp_headers_found (tab_split no_headers) = 0" by code_simp
  have s0: "read_meta (str_split_nl no_headers) ''Flow'' = ''A B A''" by code_simp
  have "\<not> isl (rebuild_parts no_headers [] [] [])" by code_simp
  then obtain r0 where r0: "rebuild_parts no_headers [] [] [] = Inr r0"
    by (cases "rebuild_parts no_headers [] [] []") auto
  have a: "\<exists>sb. structure_body (tab_split three_verses) = Inr sb \<and> s_tokens sb \<noteq> [] \<and>
         s_tokens sb = flow_tokens (s_display_map sb) (dd_occurrences (s_state sb)) \<and>
         r_meta r ''Flow'' = str_join '', '' (s_tokens sb)"
    using supplied_flow_discarded[of three_verses "[]" "[]" "[]" r] r(1) h by blast
  have b: "r_meta r0 ''Flow'' = ''A B A''"
    using supplied_flow_discarded[of no_headers "[]" "[]" "[]" r0] r0 h0 s0 by simp
  show ?thesis using s h r a h0 s0 r0 b by blast
qed

lemma stats_field_Some:
  "stats_field res t = Some (n, c) \<Longrightarrow>
     \<exists>sb stats. res = Inr sb \<and> map_of (dd_type_stats (s_state sb)) t = Some stats \<and>
        length (ts_unique stats) = n \<and> ts_count stats = c"
  by (cases res) (auto simp: stats_field_def split: option.splits)

text \<open>
  Claim C3. For every canonical type of a structured body, its count is the sum of the
  repeat counts of the sections of that type, and the display entry of its unique
  content number \<open>idx\<close> (in the order of the registry, which is the order in which the
  contents were first seen) carries a number exactly when the type has more than one
  unique content, or is one of Verse, Pre-Chorus, Chorus and Bridge with a count above 1:
  then the display name is the type, a space and \<open>idx\<close>, and the token the abbreviation and
  \<open>idx\<close>; otherwise they are the bare type and the bare abbreviation. Three identical
  verses are displayed as \<open>Verse 1\<close>.
\<close>

theorem numbering_rule:
  "(structure_body sp = Inr sb \<and> map_of (dd_type_stats (s_state sb)) type_name = Some stats \<and>
    1 \<le> idx \<and> idx \<le> length (ts_unique stats) \<longrightarrow>
      ts_count stats =
        sum_list (map repeat_count (filter (\<lambda>e. section_type e = Some type_name) (sp_sections sp))) \<and>
      (\<exists>entry. map_of (s_display_map sb) (type_name, idx) = Some entry \<and>
         de_display_name entry =
           (if 1 < length (ts_unique stats) \<or>
               (type_name \<in> {''Verse'', ''Pre-Chorus'', ''Chorus'', ''Bridge''} \<and> 1 < ts_count stats)
            then type_name @ '' '' @ str_of_nat idx else type_name) \<and>
         de_token entry =
           (if 1 < length (ts_unique stats) \<or>
               (type_name \<in> {''Verse'', ''Pre-Chorus'', ''Chorus'', ''Bridge''} \<and> 1 < ts_count stats)
            then ts_prefix stats @ str_of_nat idx else ts_prefix stats) \<and>
         de_lines entry = u_lines (ts_unique stats ! (idx - 1)))) \<and>
   rebuild_formatted_tab three_verses [] [] [] = Inr (tab_of_lines
     [''Song'', ''Band'', ''Key: G'', ''Capo: 2'', ''Tempo: '', ''Time: '', ''Flow: V1, V1, V1'',
      ''Tuning: Standard'', ''TransposedKey: '', [], ''Verse 1:'', ''G  D'', ''la'', []])"
proof (intro conjI impI)
  assume a: "structure_body sp = Inr sb \<and> map_of (dd_type_stats (s_state sb)) type_name = Some stats \<and>
    1 \<le> idx \<and> idx \<le> length (ts_unique stats)"
  then have sb: "structure_body sp = Inr sb"
    and st: "map_of (dd_type_stats (s_state sb)) type_name = Some stats"
    and i: "1 \<le> idx" "idx \<le> length (ts_unique stats)" by simp_all
  show "ts_count stats =
        sum_list (map repeat_count (filter (\<lambda>e. section_type e = Some type_name) (sp_sections sp)))"
    by (rule type_counts_total[OF sb st])
  have "map_of (s_display_map sb) (type_name, idx) = Some (display_of type_name stats idx)"
    by (rule display_entries_numbered[OF sb st i])
  then show "\<exists>entry. map_of (s_display_map sb) (type_name, idx) = Some entry \<and>
         de_display_name entry =
           (if 1 < length (ts_unique stats) \<or>
               (type_name \<in> {''Verse'', ''Pre-Chorus'', ''Chorus'', ''Bridge''} \<and> 1 < ts_count stats)
            then type_name @ '' '' @ str_of_nat idx else type_name) \<and>
         de_token entry =
           (if 1 < length (ts_unique stats) \<or>
               (type_name \<in> {''Verse'', ''Pre-Chorus'', ''Chorus'', ''Bridge''} \<and> 1 < ts_count stats)
            then ts_prefix stats @ str_of_nat idx else ts_prefix stats) \<and>
         de_lines entry = u_lines (ts_unique stats ! (idx - 1))"
    by (simp add: display_of_def numbered_def)
next
  show "rebuild_formatted_tab three_verses [] [] [] = Inr (tab_of_lines
     [''Song'', ''Band'', ''Key: G'', ''Capo: 2'', ''Tempo: '', ''Time: '', ''Flow: V1, V1, V1'',
      ''Tuning: Standard'', ''TransposedKey: '', [], ''Verse 1:'', ''G  D'', ''la'', []])"
    by code_simp
qed

theorem numbering_rule_witness:
  "\<exists>sb stats. structure_body (tab_split three_verses) = Inr sb \<and>
      map_of (dd_type_stats (s_state sb)) ''Verse'' = Some stats \<and>
      length (ts_unique stats) = 1 \<and> ts_count stats = 3 \<and>
      ts_count stats =
        sum_list (map repeat_count
          (filter (\<lambda>e. section_type e = Some ''Verse'') (sp_sections (tab_split three_verses)))) \<and>
      (\<exists>entry. map_of (s_display_map sb) (''Verse'', 1) = Some entry \<and>
         de_display_name entry = ''Verse 1'' \<and> de_token entry = ''V1'')"
proof -
  have "stats_field (structure_body (tab_split three_verses)) ''Verse'' = Some (1, 3)"
    by code_simp
  then obtain sb stats where f: "structure_body (tab_split three_verses) = Inr sb"
    "map_of (dd_type_stats (s_state sb)) ''Verse'' = Some stats"
    "length (ts_unique stats) = 1" "ts_count stats = 3"
    using stats_field_Some by blast
  have p: "ts_prefix stats = ''V''"
  proof -
    have "(case structure_body (tab_split three_verses) of Inl e \<Rightarrow> None
           | Inr sb \<Rightarrow> map_option ts_prefix (map_of (dd_type_stats (s_state sb)) ''Verse'')) = Some ''V''"
      by code_simp
    then show ?thesis using f by simp
  qed
  have n: "str_of_nat 1 = ''1''" by code_simp
  from numbering_rule[of "tab_split three_verses" sb "''Verse''" stats 1] f
  have "ts_count stats =
        sum_list (map repeat_count
          (filter (\<lambda>e. section_type e = Some ''Verse'') (sp_sections (tab_split three_verses)))) \<and>
      (\<exists>entry. map_of (s_display_map sb) (''Verse'', 1) = Some entry \<and>
         de_display_name entry = ''Verse'' @ '' '' @ str_of_nat 1 \<and>
         de_token entry = ts_prefix stats @ str_of_nat 1)"
    by auto
  then show ?thesis using f p n by auto
qed

text \<open>
  Claim C9. In the structured path the number read from a section header label is not
  used: two bodies whose sections have, one by one, the same lines and the same
  canonical type and abbreviation, and the same leading lines, give the same registries,
  display map, flow tokens and body. A body whose only section is labelled \<open>Verse 2\<close> is
  emitted under \<open>Verse:\<close> with the flow \<open>V\<close>, as the same body labelled \<open>Verse\<close> is.
\<close>

theorem header_number_discarded:
  "(map section_kind (sp_sections sp) = map section_kind (sp_sections sp') \<and>
    map sec_lines (sp_sections sp) = map sec_lines (sp_sections sp') \<and>
    sp_leading_lines sp = sp_leading_lines sp' \<longrightarrow>
      structure_body sp = structure_body sp') \<and>
   parse_section_header ''Verse 2'' = Inr (''Verse'', ''V'', Some 2) \<and>
   rebuild_formatted_tab verse_two [] [] [] = Inr (tab_of_lines
     [''Song'', ''Band'', ''Key: G'', ''Capo: 0'', ''Tempo: '', ''Time: '', ''Flow: V'',
      ''Tuning: Standard'', ''TransposedKey: '', [], ''Verse:'', ''G  D'', ''la'', []])"
proof (intro conjI impI)
  assume "map section_kind (sp_sections sp) = map section_kind (sp_sections sp') \<and>
    map sec_lines (sp_sections sp) = map sec_lines (sp_sections sp') \<and>
    sp_leading_lines sp = sp_leading_lines sp'"
  then have k: "map section_kind (sp_sections sp) = map section_kind (sp_sections sp')"
    and l: "map sec_lines (sp_sections sp) = map sec_lines (sp_sections sp')"
    and ll: "sp_leading_lines sp = sp_leading_lines sp'" by simp_all
  have h: "\<And>st. dedup_sections st (sp_sections sp) = dedup_sections st (sp_sections sp')"
    by (rule dedup_sections_kind[OF k l])
  show "structure_body sp = structure_body sp'"
    unfolding structure_body_def ll h by (rule refl)
next
  show "parse_section_header ''Verse 2'' = Inr (''Verse'', ''V'', Some 2)" by code_simp
next
  show "rebuild_formatted_tab verse_two [] [] [] = Inr (tab_of_lines
     [''Song'', ''Band'', ''Key: G'', ''Capo: 0'', ''Tempo: '', ''Time: '', ''Flow: V'',
      ''Tuning: Standard'', ''TransposedKey: '', [], ''Verse:'', ''G  D'', ''la'', []])"
    by code_simp
qed

theorem header_number_discarded_witness:
  "map sec_header (sp_sections (tab_split verse_two)) = [''Verse 2''] \<and>
   map sec_header (sp_sections (tab_split verse_bare)) = [''Verse''] \<and>
   map section_kind (sp_sections (tab_split verse_two)) =
     map section_kind (sp_sections (tab_split verse_bare)) \<and>
   map sec_lines (sp_sections (tab_split verse_two)) =
     map sec_lines (sp_sections (tab_split verse_bare)) \<and>
   sp_leading_lines (tab_split verse_two) = sp_leading_lines (tab_split verse_bare) \<and>
   structure_body (tab_split verse_two) = structure_body (tab_split verse_bare)"
proof -
  have a: "map sec_header (sp_sections (tab_split verse_two)) = [''Verse 2'']" by code_simp
  have b: "map sec_header (sp_sections (tab_split verse_bare)) = [''Verse'']" by code_simp
  have k: "map section_kind (sp_sections (tab_split verse_two)) =
     map section_kind (sp_sections (tab_split verse_bare))" by code_simp
  have l: "map sec_lines (sp_sections (tab_split verse_two)) =
     map sec_lines (sp_sections (tab_split verse_bare))" by code_simp
  have ll: "sp_leading_lines (tab_split verse_two) = sp_leading_lines (tab_split verse_bare)"
    by code_simp
  show ?thesis
    using a b k l ll header_number_discarded[of "tab_split verse_two" "tab_split verse_bare"]
    by blast
qed

section \<open>The chorus extension rule\<close>

lemma dropWhile_all_iff: "(\<forall>x\<in>set (dropWhile P s). P x) \<longleftrightarrow> dropWhile P s = []"
proof
  assume a: "\<forall>x\<in>set (dropWhile P s). P x"
  show "dropWhile P s = []"
  proof (rule ccontr)
    assume n: "dropWhile P s \<noteq> []"
    then have "\<not> P (hd (dropWhile P s))" by (rule hd_dropWhile)
    moreover have "hd (dropWhile P s) \<in> set (dropWhile P s)" using n by simp
    ultimately show False using a by blast
  qed
next
  assume e: "dropWhile P s = []"
  show "\<forall>x\<in>set (dropWhile P s). P x" unfolding e by simp
qed

lemma str_strip_Nil_iff: "str_strip s = [] \<longleftrightarrow> (\<forall>c\<in>set s. is_space c)"
proof -
  have "str_strip s = [] \<longleftrightarrow> (\<forall>x\<in>set (dropWhile is_space s). is_space x)"
    by (simp add: str_strip_def str_rstrip_def str_lstrip_def dropWhile_eq_Nil_conv)
  also have "\<dots> \<longleftrightarrow> dropWhile is_space s = []" by (rule dropWhile_all_iff)
  also have "\<dots> \<longleftrightarrow> (\<forall>c\<in>set s. is_space c)" by (simp add: dropWhile_eq_Nil_conv)
  finally show ?thesis .
qed

lemma str_strip_append_blank_left:
  assumes "\<forall>c\<in>set a. is_space c"
  shows "str_strip (a @ b) = str_strip b"
  using assms by (simp add: str_strip_def str_lstrip_def dropWhile_append2)

lemma str_strip_append_both:
  assumes "\<not> (\<forall>c\<in>set a. is_space c)" "\<not> (\<forall>c\<in>set b. is_space c)"
  shows "str_strip (a @ b) = str_lstrip a @ str_rstrip b"
proof -
  obtain x where x: "x \<in> set a" "\<not> is_space x" using assms(1) by blast
  obtain y where y: "y \<in> set b" "\<not> is_space y" using assms(2) by blast
  have l: "str_lstrip (a @ b) = str_lstrip a @ b"
    using x by (simp add: str_lstrip_def dropWhile_append1)
  have "dropWhile is_space (rev b @ rev (str_lstrip a)) = dropWhile is_space (rev b) @ rev (str_lstrip a)"
    using y by (intro dropWhile_append1[of y]) simp_all
  then show ?thesis by (simp add: str_strip_def l str_rstrip_def)
qed

lemma str_join_append:
  "us \<noteq> [] \<Longrightarrow> ss \<noteq> [] \<Longrightarrow> str_join sep (us @ ss) = str_join sep us @ sep @ str_join sep ss"
proof (induction sep us rule: str_join.induct)
  case (1 sep)
  then show ?case by simp
next
  case (2 sep x)
  then show ?case by (cases ss) simp_all
next
  case (3 sep x y ys)
  then show ?case by simp
qed

text \<open>A content whose key is the key of a prefix of its lines has a blank remainder.\<close>

lemma normalize_suffix_blank:
  assumes "normalize_content (us @ ss) = normalize_content us"
  shows "normalize_content ss = []"
proof (rule ccontr)
  assume ne: "normalize_content ss \<noteq> []"
  then have ss: "ss \<noteq> []" by (auto simp: normalize_content_def str_strip_def str_rstrip_def str_lstrip_def)
  have nb: "\<not> (\<forall>c\<in>set (str_join [nl] ss). is_space c)"
    using ne by (simp add: normalize_content_def str_strip_Nil_iff)
  show False
  proof (cases "us = []")
    case True
    then have "normalize_content ss = normalize_content []" using assms by simp
    then show False using ne by (simp add: normalize_content_def str_strip_def str_rstrip_def str_lstrip_def)
  next
    case False
    let ?a = "str_join [nl] us"
    let ?b = "[nl] @ str_join [nl] ss"
    have j: "str_join [nl] (us @ ss) = ?a @ ?b" using False ss by (simp add: str_join_append)
    have nb': "\<not> (\<forall>c\<in>set ?b. is_space c)" using nb by auto
    have eq: "str_strip (?a @ ?b) = str_strip ?a" using assms j by (simp add: normalize_content_def)
    show False
    proof (cases "\<forall>c\<in>set ?a. is_space c")
      case True
      then have "str_strip (?a @ ?b) = str_strip ?b" by (rule str_strip_append_blank_left)
      moreover have "str_strip ?a = []" using True by (simp add: str_strip_Nil_iff)
      ultimately have "str_strip ?b = []" using eq by simp
      then show False using nb' by (simp only: str_strip_Nil_iff)
    next
      case False
      then have "str_strip (?a @ ?b) = str_lstrip ?a @ str_rstrip ?b"
        using nb' by (rule str_strip_append_both)
      then have "length (str_strip ?a) = length (str_lstrip ?a) + length (str_rstrip ?b)"
        using eq by (metis length_append)
      moreover have "length (str_strip ?a) \<le> length (str_lstrip ?a)"
        by (simp add: str_strip_def str_rstrip_def length_dropWhile_le)
           (metis length_dropWhile_le length_rev)
      moreover have "str_rstrip ?b \<noteq> []"
        using nb' unfolding str_rstrip_def by (auto simp: dropWhile_eq_Nil_conv)
      ultimately show False by simp
    qed
  qed
qed

lemma starts_with_lines_iff:
  "starts_with_lines candidate prefix \<longleftrightarrow> take (length prefix) candidate = prefix"
proof (cases "length candidate < length prefix")
  case True
  then show ?thesis by (auto simp: starts_with_lines_def)
next
  case False
  then have "(take (length prefix) candidate = prefix) =
      (\<forall>i<length prefix. candidate ! i = prefix ! i)"
    by (auto simp: list_eq_iff_nth_eq)
  then show ?thesis using False by (auto simp: starts_with_lines_def list_all_iff)
qed

lemma find_match_skip:
  assumes "\<forall>u\<in>set pre. u_key u \<noteq> ck \<and> \<not> (t = ''Chorus'' \<and> starts_with_lines cc (u_lines_clean u))"
  shows "find_match t cc ck all idx (pre @ rest) = find_match t cc ck all (idx + length pre) rest"
  using assms by (induction pre arbitrary: idx) auto

lemma find_match_at_prefix:
  assumes i: "1 \<le> i" "i \<le> length us"
    and pm: "starts_with_lines cc (u_lines_clean (us ! (i - 1)))"
    and first: "\<forall>k<i - 1. \<not> starts_with_lines cc (u_lines_clean (us ! k))"
    and nokey: "\<forall>k<i - 1. u_key (us ! k) \<noteq> normalize_content cc"
    and ok: "registry_ok us"
    and suffix: "suffix = drop (length (u_lines_clean (us ! (i - 1)))) cc"
  shows "find_match ''Chorus'' cc (normalize_content cc) us 1 us =
     (if normalize_content suffix = [] then (Some i, us, False)
      else (case find_extension i (normalize_content suffix) 1 us of
              Some j \<Rightarrow> (Some j, us, False)
            | None \<Rightarrow>
                (Some (length us + 1),
                 us @ [\<lparr>u_key = normalize_content suffix, u_lines = suffix,
                         u_lines_clean = suffix, u_extension_of = Some i\<rparr>],
                 True)))"
proof -
  let ?u = "us ! (i - 1)"
  let ?pre = "take (i - 1) us"
  have i1: "i - 1 < length us" "Suc (i - 1) = i" using i by simp_all
  have split: "us = ?pre @ ?u # drop i us"
    using id_take_nth_drop[OF i1(1)] i1(2) by simp
  have lp: "length ?pre = i - 1" using i by simp
  have skip: "\<forall>u\<in>set ?pre. u_key u \<noteq> normalize_content cc \<and>
       \<not> (''Chorus'' = ''Chorus'' \<and> starts_with_lines cc (u_lines_clean u))"
  proof
    fix u assume "u \<in> set ?pre"
    then obtain k where k: "k < length ?pre" "?pre ! k = u" by (metis in_set_conv_nth)
    then have "k < i - 1" "us ! k = u" using lp by simp_all
    then show "u_key u \<noteq> normalize_content cc \<and>
       \<not> (''Chorus'' = ''Chorus'' \<and> starts_with_lines cc (u_lines_clean u))"
      using first nokey by blast
  qed
  have "find_match ''Chorus'' cc (normalize_content cc) us 1 (?pre @ ?u # drop i us) =
        find_match ''Chorus'' cc (normalize_content cc) us (1 + length ?pre) (?u # drop i us)"
    by (rule find_match_skip[OF skip])
  moreover have "1 + length ?pre = i" using lp i by simp
  ultimately have fm: "find_match ''Chorus'' cc (normalize_content cc) us 1 us =
        find_match ''Chorus'' cc (normalize_content cc) us i (?u # drop i us)"
    using split by metis
  have cc: "cc = u_lines_clean ?u @ suffix"
    using pm suffix by (metis append_take_drop_id starts_with_lines_iff)
  have ukey: "u_key ?u = normalize_content (u_lines_clean ?u)"
    using ok i unfolding registry_ok_def by simp
  show ?thesis
  proof (cases "u_key ?u = normalize_content cc")
    case True
    then have "normalize_content (u_lines_clean ?u @ suffix) = normalize_content (u_lines_clean ?u)"
      using cc ukey by simp
    then have "normalize_content suffix = []" by (rule normalize_suffix_blank)
    then show ?thesis unfolding fm using True by simp
  next
    case False
    have "find_match ''Chorus'' cc (normalize_content cc) us i (?u # drop i us) =
      (let extension_lines = drop (length (u_lines_clean ?u)) cc;
            extension_key = str_strip (str_join [nl] extension_lines)
        in if extension_key = [] then (Some i, us, False)
           else (case find_extension i extension_key 1 us of
                   Some jdx \<Rightarrow> (Some jdx, us, False)
                 | None \<Rightarrow>
                     (Some (length us + 1),
                      us @ [\<lparr>u_key = extension_key, u_lines = extension_lines,
                                     u_lines_clean = extension_lines,
                                     u_extension_of = Some i\<rparr>],
                      True)))"
      using False pm by (simp only: find_match.simps if_False if_True simp_thms)
    also have "\<dots> = (if normalize_content suffix = [] then (Some i, us, False)
      else (case find_extension i (normalize_content suffix) 1 us of
              Some j \<Rightarrow> (Some j, us, False)
            | None \<Rightarrow>
                (Some (length us + 1),
                 us @ [\<lparr>u_key = normalize_content suffix, u_lines = suffix,
                         u_lines_clean = suffix, u_extension_of = Some i\<rparr>],
                 True)))"
      unfolding Let_def normalize_content_def suffix by (rule refl)
    finally show ?thesis unfolding fm .
  qed
qed

lemma type_uniques_stat_of: "ts_unique (stat_of ts t pre) = type_uniques ts t"
  by (simp add: stat_of_def type_uniques_def new_stat_def split: option.splits)

lemma type_uniques_registry_ok:
  assumes "dedup_inv st"
  shows "registry_ok (type_uniques (dd_type_stats st) t)"
proof -
  have "registry_ok (ts_unique (stat_of (dd_type_stats st) t []))"
    by (rule stat_of_registry_ok) (use assms in \<open>simp add: dedup_inv_def\<close>)
  then show ?thesis by (simp add: type_uniques_stat_of)
qed

lemma dedup_section_chorus_step:
  assumes p: "parse_section_header (sec_header entry) = Inr (''Chorus'', pre, n)"
    and fm: "find_match ''Chorus'' (content_block entry) (normalize_content (content_block entry))
               (type_uniques (dd_type_stats st) ''Chorus'') 1
               (type_uniques (dd_type_stats st) ''Chorus'') = (Some idx, us1, ext)"
  shows "\<exists>st'. dedup_section st entry = Inr st' \<and>
           type_uniques (dd_type_stats st') ''Chorus'' = us1 \<and>
           dd_occurrences st' = dd_occurrences st @
             replicate (repeat_count entry)
               \<lparr>occ_type = ''Chorus'', occ_prefix = pre, occ_unique_idx = idx, occ_extension = ext\<rparr>"
proof -
  have m: "match_of st entry ''Chorus'' pre = (Some idx, us1, ext)"
    using fm by (simp add: match_of_def Let_def type_uniques_stat_of)
  note step = dedup_section_step[OF p m]
  show ?thesis
    by (subst step, rule exI, intro conjI, rule refl)
       (simp_all add: type_uniques_def map_of_dict_update keys_dict_setdefault)
qed

lemma chorus_run_Some:
  "chorus_run secs = Some (is, es) \<Longrightarrow>
     \<exists>st. dedup_sections dedup_init secs = Inr st \<and>
          map occ_unique_idx (dd_occurrences st) = is \<and>
          map (\<lambda>u. (u_key u, u_lines_clean u, u_extension_of u))
            (type_uniques (dd_type_stats st) ''Chorus'') = es"
  by (cases "dedup_sections dedup_init secs") (auto simp: chorus_run_def)

text \<open>
  Claim C4, as stated, fails: the third chorus below starts with exactly the lines of
  the second registry entry, which is the first entry it prefix-matches, and the rest
  of its lines is not blank; yet no extension entry is registered and the section
  reuses the index of the first entry, whose key is the key of the section's content.
\<close>

theorem chorus_extension_counterexample:
  "map sec_lines (sp_sections (tab_split three_choruses)) = [[[], ''a'', ''x''], [''a''], [''a'', ''x'']] \<and>
   chorus_run [chorus [[], ''a'', ''x''], chorus [''a'']] =
     Some ([1, 2], [(''a'' @ [nl] @ ''x'', [[], ''a'', ''x''], None), (''a'', [''a''], None)]) \<and>
   content_block (chorus [''a'', ''x'']) = [''a'', ''x''] \<and>
   \<not> starts_with_lines [''a'', ''x''] [[], ''a'', ''x''] \<and>
   starts_with_lines [''a'', ''x''] [''a''] \<and>
   normalize_content (drop (length [''a'']) [''a'', ''x'']) = ''x'' \<and>
   chorus_run [chorus [[], ''a'', ''x''], chorus [''a''], chorus [''a'', ''x'']] =
     Some ([1, 2, 1], [(''a'' @ [nl] @ ''x'', [[], ''a'', ''x''], None), (''a'', [''a''], None)]) \<and>
   flow_field (rebuild_parts three_choruses [] [] []) = Some ''C1, C2, C1''"
  by code_simp

text \<open>
  Claim C4, amended. Take a Chorus section met in a state the section loop can reach,
  and let \<open>u\<close>, the entry number \<open>i\<close> of the Chorus registry, be the first entry whose
  lines the section's collapsed lines start with, no entry before \<open>u\<close> having the key of
  the section's content. If the lines after those of \<open>u\<close> normalise to the empty string,
  the section's occurrences carry the index \<open>i\<close> and the registry is unchanged.
  Otherwise they carry an index other than \<open>i\<close>: that of the first entry registered
  with that suffix key as an extension of \<open>i\<close> when there is one, the registry being
  unchanged, and else that of a new last entry, which holds the suffix lines alone and
  is tagged as an extension of \<open>i\<close>.
\<close>

theorem chorus_extension_rule:
  assumes reach: "dedup_sections dedup_init secs = Inr st"
    and p: "parse_section_header (sec_header entry) = Inr (''Chorus'', pre, n)"
    and us: "us = type_uniques (dd_type_stats st) ''Chorus''"
    and i: "1 \<le> i" "i \<le> length us"
    and pm: "starts_with_lines (content_block entry) (u_lines_clean (us ! (i - 1)))"
    and first: "\<forall>k<i - 1. \<not> starts_with_lines (content_block entry) (u_lines_clean (us ! k))"
    and nokey: "\<forall>k<i - 1. u_key (us ! k) \<noteq> normalize_content (content_block entry)"
    and suffix: "suffix = drop (length (u_lines_clean (us ! (i - 1)))) (content_block entry)"
  shows "\<exists>st' idx ext. dedup_section st entry = Inr st' \<and>
      dd_occurrences st' = dd_occurrences st @
        replicate (repeat_count entry)
          \<lparr>occ_type = ''Chorus'', occ_prefix = pre, occ_unique_idx = idx, occ_extension = ext\<rparr> \<and>
      (normalize_content suffix = [] \<longrightarrow>
         idx = i \<and> type_uniques (dd_type_stats st') ''Chorus'' = us) \<and>
      (normalize_content suffix \<noteq> [] \<longrightarrow> idx \<noteq> i \<and>
         (if \<exists>j<length us. u_extension_of (us ! j) = Some i \<and> u_key (us ! j) = normalize_content suffix
          then type_uniques (dd_type_stats st') ''Chorus'' = us \<and> 1 \<le> idx \<and> idx \<le> length us \<and>
               u_extension_of (us ! (idx - 1)) = Some i \<and>
               u_key (us ! (idx - 1)) = normalize_content suffix \<and>
               (\<forall>j<idx - 1. \<not> (u_extension_of (us ! j) = Some i \<and>
                                 u_key (us ! j) = normalize_content suffix))
          else type_uniques (dd_type_stats st') ''Chorus'' =
                 us @ [\<lparr>u_key = normalize_content suffix, u_lines = suffix,
                         u_lines_clean = suffix, u_extension_of = Some i\<rparr>] \<and>
               idx = length us + 1))"
proof -
  let ?sk = "normalize_content suffix"
  let ?new = "\<lparr>u_key = ?sk, u_lines = suffix, u_lines_clean = suffix, u_extension_of = Some i\<rparr>"
  have inv: "dedup_inv st"
    by (rule dedup_sections_inv[OF reach]) (simp add: dedup_init_def dedup_inv_init)
  have ok: "registry_ok us" unfolding us by (rule type_uniques_registry_ok[OF inv])
  note fm = find_match_at_prefix[OF i pm first nokey ok suffix]
  show ?thesis
  proof (cases "?sk = []")
    case True
    then have "find_match ''Chorus'' (content_block entry) (normalize_content (content_block entry))
        us 1 us = (Some i, us, False)" using fm by simp
    from dedup_section_chorus_step[OF p this[unfolded us]] show ?thesis
      using True us by blast
  next
    case False
    show ?thesis
    proof (cases "find_extension i ?sk 1 us")
      case None
      then have f: "find_match ''Chorus'' (content_block entry) (normalize_content (content_block entry))
          us 1 us = (Some (length us + 1), us @ [?new], True)" using fm False by simp
      have no: "\<not> (\<exists>j<length us. u_extension_of (us ! j) = Some i \<and> u_key (us ! j) = ?sk)"
        using find_extension_None[OF None] by (metis nth_mem)
      from dedup_section_chorus_step[OF p f[unfolded us]] obtain st' where st':
        "dedup_section st entry = Inr st'"
        "type_uniques (dd_type_stats st') ''Chorus'' = us @ [?new]"
        "dd_occurrences st' = dd_occurrences st @
          replicate (repeat_count entry)
            \<lparr>occ_type = ''Chorus'', occ_prefix = pre, occ_unique_idx = length us + 1,
             occ_extension = True\<rparr>"
        using us by blast
      have "length us + 1 \<noteq> i" using i by simp
      then show ?thesis using st' False no by (intro exI[of _ st'] exI[of _ "length us + 1"] exI[of _ True]) simp
    next
      case (Some j)
      then have f: "find_match ''Chorus'' (content_block entry) (normalize_content (content_block entry))
          us 1 us = (Some j, us, False)" using fm False by simp
      from find_extension_bounds[OF Some] have jb: "1 \<le> j" "j \<le> length us" by simp_all
      from find_extension_Some[OF Some] have je:
        "u_extension_of (us ! (j - 1)) = Some i" "u_key (us ! (j - 1)) = ?sk"
        "\<forall>m<j - 1. \<not> (u_extension_of (us ! m) = Some i \<and> u_key (us ! m) = ?sk)" by simp_all
      have "j - 1 < length us" using jb by simp
      then have ex: "\<exists>j<length us. u_extension_of (us ! j) = Some i \<and> u_key (us ! j) = ?sk"
        using je by blast
      have "i \<le> j - 1" using ok je(1) \<open>j - 1 < length us\<close> unfolding registry_ok_def by blast
      then have ne: "j \<noteq> i" using jb by simp
      from dedup_section_chorus_step[OF p f[unfolded us]] obtain st' where st':
        "dedup_section st entry = Inr st'"
        "type_uniques (dd_type_stats st') ''Chorus'' = us"
        "dd_occurrences st' = dd_occurrences st @
          replicate (repeat_count entry)
            \<lparr>occ_type = ''Chorus'', occ_prefix = pre, occ_unique_idx = j, occ_extension = False\<rparr>"
        using us by blast
      show ?thesis
        using st' False ex ne jb je by (intro exI[of _ st'] exI[of _ j] exI[of _ False]) simp
    qed
  qed
qed

theorem chorus_extension_rule_witness:
  "(\<exists>st st' ext.
      dedup_sections dedup_init [chorus [''a'', ''b'']] = Inr st \<and>
      parse_section_header (sec_header (chorus [''a'', ''b'', ''c'', ''d''])) = Inr (''Chorus'', ''C'', None) \<and>
      dedup_section st (chorus [''a'', ''b'', ''c'', ''d'']) = Inr st' \<and>
      dd_occurrences st' = dd_occurrences st @
        replicate (repeat_count (chorus [''a'', ''b'', ''c'', ''d'']))
          \<lparr>occ_type = ''Chorus'', occ_prefix = ''C'', occ_unique_idx = 2, occ_extension = ext\<rparr> \<and>
      type_uniques (dd_type_stats st') ''Chorus'' =
        type_uniques (dd_type_stats st) ''Chorus'' @
          [\<lparr>u_key = ''c'' @ [nl] @ ''d'', u_lines = [''c'', ''d''], u_lines_clean = [''c'', ''d''],
            u_extension_of = Some 1\<rparr>]) \<and>
   flow_field (rebuild_parts two_choruses [] [] []) = Some ''C1, C2''"
proof -
  let ?e = "chorus [''a'', ''b'', ''c'', ''d'']"
  have "chorus_run [chorus [''a'', ''b'']] = Some ([1], [(''a'' @ [nl] @ ''b'', [''a'', ''b''], None)])"
    by code_simp
  from chorus_run_Some[OF this] obtain st where st:
    "dedup_sections dedup_init [chorus [''a'', ''b'']] = Inr st"
    "map (\<lambda>u. (u_key u, u_lines_clean u, u_extension_of u))
            (type_uniques (dd_type_stats st) ''Chorus'') = [(''a'' @ [nl] @ ''b'', [''a'', ''b''], None)]"
    by (elim exE conjE)
  let ?us = "type_uniques (dd_type_stats st) ''Chorus''"
  from st(2) obtain u where u: "?us = [u]" "u_lines_clean u = [''a'', ''b'']" "u_extension_of u = None"
    by auto
  have p: "parse_section_header (sec_header ?e) = Inr (''Chorus'', ''C'', None)" by code_simp
  have cb: "content_block ?e = [''a'', ''b'', ''c'', ''d'']" by code_simp
  have u0: "u_lines_clean (?us ! (1 - 1)) = [''a'', ''b'']" using u by simp
  have pm: "starts_with_lines (content_block ?e) (u_lines_clean (?us ! (1 - 1)))"
    unfolding cb u0 by code_simp
  have first: "\<forall>k<(1::nat) - 1. \<not> starts_with_lines (content_block ?e) (u_lines_clean (?us ! k))"
    by simp
  have nokey: "\<forall>k<(1::nat) - 1. u_key (?us ! k) \<noteq> normalize_content (content_block ?e)" by simp
  have sf: "[''c'', ''d''] = drop (length (u_lines_clean (?us ! (1 - 1)))) (content_block ?e)"
    unfolding cb u0 by simp
  have nk: "normalize_content [''c'', ''d''] = ''c'' @ [nl] @ ''d''" by code_simp
  then have ne: "normalize_content [''c'', ''d''] \<noteq> []" by simp
  have no: "\<not> (\<exists>j<length ?us. u_extension_of (?us ! j) = Some 1 \<and>
                 u_key (?us ! j) = normalize_content [''c'', ''d''])"
    using u by simp
  have l: "length ?us = 1" using u by simp
  have i1: "(1::nat) \<le> 1" "1 \<le> length ?us" using l by simp_all
  note inst = chorus_extension_rule[OF st(1) p refl i1 pm first nokey sf]
  from inst obtain st' idx ext where r:
    "dedup_section st ?e = Inr st'"
    "dd_occurrences st' = dd_occurrences st @
        replicate (repeat_count ?e)
          \<lparr>occ_type = ''Chorus'', occ_prefix = ''C'', occ_unique_idx = idx, occ_extension = ext\<rparr>"
    and d: "normalize_content [''c'', ''d''] \<noteq> [] \<longrightarrow> idx \<noteq> 1 \<and>
         (if \<exists>j<length ?us. u_extension_of (?us ! j) = Some 1 \<and>
                 u_key (?us ! j) = normalize_content [''c'', ''d'']
          then type_uniques (dd_type_stats st') ''Chorus'' = ?us \<and> 1 \<le> idx \<and> idx \<le> length ?us \<and>
               u_extension_of (?us ! (idx - 1)) = Some 1 \<and>
               u_key (?us ! (idx - 1)) = normalize_content [''c'', ''d''] \<and>
               (\<forall>j<idx - 1. \<not> (u_extension_of (?us ! j) = Some 1 \<and>
                                 u_key (?us ! j) = normalize_content [''c'', ''d'']))
          else type_uniques (dd_type_stats st') ''Chorus'' =
                 ?us @ [\<lparr>u_key = normalize_content [''c'', ''d''], u_lines = [''c'', ''d''],
                         u_lines_clean = [''c'', ''d''], u_extension_of = Some 1\<rparr>] \<and>
               idx = length ?us + 1)"
    by (elim exE conjE)
  from d ne have "(if \<exists>j<length ?us. u_extension_of (?us ! j) = Some 1 \<and>
                 u_key (?us ! j) = normalize_content [''c'', ''d'']
          then type_uniques (dd_type_stats st') ''Chorus'' = ?us \<and> 1 \<le> idx \<and> idx \<le> length ?us \<and>
               u_extension_of (?us ! (idx - 1)) = Some 1 \<and>
               u_key (?us ! (idx - 1)) = normalize_content [''c'', ''d''] \<and>
               (\<forall>j<idx - 1. \<not> (u_extension_of (?us ! j) = Some 1 \<and>
                                 u_key (?us ! j) = normalize_content [''c'', ''d'']))
          else type_uniques (dd_type_stats st') ''Chorus'' =
                 ?us @ [\<lparr>u_key = normalize_content [''c'', ''d''], u_lines = [''c'', ''d''],
                         u_lines_clean = [''c'', ''d''], u_extension_of = Some 1\<rparr>] \<and>
               idx = length ?us + 1)" by blast
  then have e: "type_uniques (dd_type_stats st') ''Chorus'' =
                 ?us @ [\<lparr>u_key = normalize_content [''c'', ''d''], u_lines = [''c'', ''d''],
                         u_lines_clean = [''c'', ''d''], u_extension_of = Some 1\<rparr>] \<and>
               idx = length ?us + 1"
    by (simp only: no if_False)
  have fl: "flow_field (rebuild_parts two_choruses [] [] []) = Some ''C1, C2''" by code_simp
  have "idx = 2" using e l by simp
  then show ?thesis using st(1) p r e nk fl by auto
qed

section \<open>The Flow sequence\<close>

lemma resolves_content_append:
  "resolves_content t cc us m \<Longrightarrow> resolves_content t cc (us @ ex) m"
  unfolding resolves_content_def
  by (auto simp: nth_append split: option.splits)

lemma find_match_resolves:
  assumes "find_match t cc (normalize_content cc) all idx us = (r, all', ext)"
    and "all = pre @ us" "idx = length pre + 1"
  shows "case r of
           Some m \<Rightarrow> resolves_content t cc all' m
         | None \<Rightarrow> all' = all \<and> (\<forall>u\<in>set us. u_key u \<noteq> normalize_content cc)"
  using assms
proof (induction us arbitrary: pre idx)
  case Nil
  then show ?case by simp
next
  case (Cons u us)
  have u: "all ! (idx - 1) = u" and il: "1 \<le> idx" "idx \<le> length all"
    using Cons.prems(2,3) by simp_all
  have lt: "idx - 1 < length all" using il by simp
  show ?case
  proof (cases "u_key u = normalize_content cc")
    case True
    then have "r = Some idx" "all' = all" using Cons.prems(1) by simp_all
    then show ?thesis using True u il by (simp add: resolves_content_def)
  next
    case False
    note nk = this
    show ?thesis
    proof (cases "t = ''Chorus'' \<and> starts_with_lines cc (u_lines_clean u)")
      case False
      then have f: "find_match t cc (normalize_content cc) all (idx + 1) us = (r, all', ext)"
        using Cons.prems(1) nk by auto
      have "all = (pre @ [u]) @ us" "idx + 1 = length (pre @ [u]) + 1"
        using Cons.prems(2,3) by simp_all
      from Cons.IH[OF f this] show ?thesis using nk by (auto split: option.splits)
    next
      case True
      let ?el = "drop (length (u_lines_clean u)) cc"
      let ?ek = "normalize_content ?el"
      show ?thesis
      proof (cases "?ek = []")
        case True
        then have "r = Some idx" "all' = all"
          using Cons.prems(1) nk \<open>t = ''Chorus'' \<and> _\<close>
          by (simp_all add: Let_def normalize_content_def)
        then show ?thesis using True u il \<open>t = ''Chorus'' \<and> _\<close>
          by (simp add: resolves_content_def)
      next
        case False
        show ?thesis
        proof (cases "find_extension idx ?ek 1 all")
          case None
          let ?new = "\<lparr>u_key = ?ek, u_lines = ?el, u_lines_clean = ?el, u_extension_of = Some idx\<rparr>"
          have "r = Some (length all + 1)" "all' = all @ [?new]"
            using Cons.prems(1) nk False None \<open>t = ''Chorus'' \<and> _\<close>
            by (simp_all add: Let_def normalize_content_def)
          then show ?thesis using u il lt \<open>t = ''Chorus'' \<and> _\<close>
            by (simp add: resolves_content_def nth_append)
        next
          case (Some j)
          have "r = Some j" "all' = all"
            using Cons.prems(1) nk False Some \<open>t = ''Chorus'' \<and> _\<close>
            by (simp_all add: Let_def normalize_content_def)
          moreover from find_extension_bounds[OF Some] have "1 \<le> j" "j \<le> length all" by simp_all
          moreover from find_extension_Some[OF Some]
          have "u_extension_of (all ! (j - 1)) = Some idx" "u_key (all ! (j - 1)) = ?ek" by simp_all
          ultimately show ?thesis using u il \<open>t = ''Chorus'' \<and> _\<close>
            by (simp add: resolves_content_def)
        qed
      qed
    qed
  qed
qed

lemma find_match_not_chorus:
  assumes "t \<noteq> ''Chorus''" "find_match t cc ck all idx us = (r, all', ext)"
  shows "all' = all"
  using assms by (induction us arbitrary: idx) (auto split: if_splits)

lemma type_uniques_step:
  "type_uniques (dict_update (dict_setdefault ts t d) t s) t' =
     (if t' = t then ts_unique s else type_uniques ts t')"
  by (simp add: type_uniques_def map_of_dict_update keys_dict_setdefault map_of_dict_setdefault)

lemma dedup_section_resolution:
  assumes step: "dedup_section st entry = Inr st1"
    and kinv: "keys_inv (dd_type_stats st)"
  shows "\<exists>oc. resolved_occurrence st entry = Some oc \<and>
           section_type entry = Some (occ_type oc) \<and>
           dd_occurrences st1 = dd_occurrences st @ replicate (repeat_count entry) oc \<and>
           resolves_content (occ_type oc) (content_block entry)
             (type_uniques (dd_type_stats st1) (occ_type oc)) (occ_unique_idx oc) \<and>
           keys_inv (dd_type_stats st1)"
proof -
  from step obtain t pre n where p: "parse_section_header (sec_header entry) = Inr (t, pre, n)"
    by (rule dedup_section_parse)
  obtain found us1 ext where fm: "match_of st entry t pre = (found, us1, ext)"
    by (cases "match_of st entry t pre")
  let ?us = "type_uniques (dd_type_stats st) t"
  let ?cc = "content_block entry"
  let ?new = "\<lparr>u_key = normalize_content ?cc, u_lines = ?cc, u_lines_clean = ?cc,
                u_extension_of = None\<rparr>"
  let ?us' = "case found of Some i \<Rightarrow> us1 | None \<Rightarrow> us1 @ [?new]"
  let ?idx = "case found of Some i \<Rightarrow> i | None \<Rightarrow> length us1 + 1"
  let ?oc = "\<lparr>occ_type = t, occ_prefix = pre, occ_unique_idx = ?idx, occ_extension = ext\<rparr>"
  have fm': "find_match t ?cc (normalize_content ?cc) ?us 1 ?us = (found, us1, ext)"
    using fm by (simp add: match_of_def Let_def type_uniques_stat_of)
  have st1: "dedup_section st entry = Inr st1" by (rule step)
  note eq = dedup_section_step[OF p fm]
  have tu: "\<And>t'. type_uniques (dd_type_stats st1) t' = (if t' = t then ?us' else type_uniques (dd_type_stats st) t')"
    using eq st1 by (auto simp: type_uniques_step)
  have occ: "dd_occurrences st1 = dd_occurrences st @ replicate (repeat_count entry) ?oc"
    using eq st1 by auto
  have ro: "resolved_occurrence st entry = Some ?oc"
    by (simp add: resolved_occurrence_def p fm)
  have ty: "section_type entry = Some t" by (simp add: section_type_def p)
  have fr: "case found of
           Some m \<Rightarrow> resolves_content t ?cc us1 m
         | None \<Rightarrow> us1 = ?us \<and> (\<forall>u\<in>set ?us. u_key u \<noteq> normalize_content ?cc)"
    by (rule find_match_resolves[OF fm', of "[]"]) simp_all
  have res: "resolves_content t ?cc ?us' ?idx"
  proof (cases found)
    case None
    then show ?thesis by (simp add: resolves_content_def)
  next
    case (Some m)
    then show ?thesis using fr by simp
  qed
  have k: "keys_inv (dd_type_stats st1)"
    unfolding keys_inv_def
  proof (intro allI impI)
    fix t' :: string assume nc: "t' \<noteq> ''Chorus''"
    have old: "distinct (map u_key (type_uniques (dd_type_stats st) t'))"
      using kinv nc by (simp add: keys_inv_def)
    show "distinct (map u_key (type_uniques (dd_type_stats st1) t'))"
    proof (cases "t' = t")
      case False
      then show ?thesis using tu old by simp
    next
      case True
      then have "us1 = ?us" using find_match_not_chorus[OF _ fm'] nc by simp
      then show ?thesis using fr old True tu by (cases found) auto
    qed
  qed
  show ?thesis
    by (rule exI[of _ ?oc]) (use ro ty occ res k tu in simp)
qed

lemma dedup_sections_grow:
  "dedup_sections st secs = Inr st' \<Longrightarrow> dedup_inv st \<Longrightarrow>
     \<exists>ex. type_uniques (dd_type_stats st') t = type_uniques (dd_type_stats st) t @ ex"
proof (induction secs arbitrary: st)
  case Nil
  then show ?case by simp
next
  case (Cons entry secs)
  then obtain st1 where s1: "dedup_section st entry = Inr st1" "dedup_sections st1 secs = Inr st'"
    by (auto split: sum.splits)
  have inv1: "dedup_inv st1" by (rule dedup_section_inv[OF s1(1) Cons.prems(2)])
  from Cons.IH[OF s1(2) inv1] obtain ex where ex:
    "type_uniques (dd_type_stats st') t = type_uniques (dd_type_stats st1) t @ ex" by blast
  have "\<exists>ex1. type_uniques (dd_type_stats st1) t = type_uniques (dd_type_stats st) t @ ex1"
  proof (rule dedup_section_stats[OF s1(1) Cons.prems(2)], goal_cases)
    case f: (1 t0 pre n idx us' ext)
    show ?case
    proof (cases "t = t0")
      case True
      then show ?thesis using f(2)[of t] f(5)
        by (simp add: type_uniques_def type_uniques_stat_of[symmetric] del: type_uniques_stat_of)
           (metis type_uniques_def type_uniques_stat_of)
    next
      case False
      then show ?thesis using f(2)[of t] by (simp add: type_uniques_def)
    qed
  qed
  then show ?case using ex by auto
qed

lemma dedup_sections_resolution:
  assumes "dedup_sections st secs = Inr st'" "dedup_inv st" "keys_inv (dd_type_stats st)"
  shows "(\<exists>os. length os = length secs \<and>
            dd_occurrences st' = dd_occurrences st @ occurrences_of secs os \<and>
            (\<forall>i<length secs.
               (\<exists>sti. dedup_sections st (take i secs) = Inr sti \<and>
                      resolved_occurrence sti (secs ! i) = Some (os ! i)) \<and>
               section_type (secs ! i) = Some (occ_type (os ! i)) \<and>
               resolves_content (occ_type (os ! i)) (content_block (secs ! i))
                 (type_uniques (dd_type_stats st') (occ_type (os ! i))) (occ_unique_idx (os ! i)))) \<and>
         keys_inv (dd_type_stats st')"
  using assms
proof (induction secs arbitrary: st)
  case Nil
  then show ?case by (simp add: occurrences_of_def)
next
  case (Cons entry secs)
  then obtain st1 where s1: "dedup_section st entry = Inr st1" "dedup_sections st1 secs = Inr st'"
    by (auto split: sum.splits)
  have inv1: "dedup_inv st1" by (rule dedup_section_inv[OF s1(1) Cons.prems(2)])
  from dedup_section_resolution[OF s1(1) Cons.prems(3)] obtain oc where oc:
    "resolved_occurrence st entry = Some oc"
    "section_type entry = Some (occ_type oc)"
    "dd_occurrences st1 = dd_occurrences st @ replicate (repeat_count entry) oc"
    "resolves_content (occ_type oc) (content_block entry)
             (type_uniques (dd_type_stats st1) (occ_type oc)) (occ_unique_idx oc)"
    "keys_inv (dd_type_stats st1)"
    by (elim exE conjE)
  from Cons.IH[OF s1(2) inv1 oc(5)] obtain os where os:
    "length os = length secs"
    "dd_occurrences st' = dd_occurrences st1 @ occurrences_of secs os"
    "\<forall>i<length secs.
               (\<exists>sti. dedup_sections st1 (take i secs) = Inr sti \<and>
                      resolved_occurrence sti (secs ! i) = Some (os ! i)) \<and>
               section_type (secs ! i) = Some (occ_type (os ! i)) \<and>
               resolves_content (occ_type (os ! i)) (content_block (secs ! i))
                 (type_uniques (dd_type_stats st') (occ_type (os ! i))) (occ_unique_idx (os ! i))"
    and k: "keys_inv (dd_type_stats st')"
    by (elim exE conjE)
  obtain ex where ex: "type_uniques (dd_type_stats st') (occ_type oc) =
      type_uniques (dd_type_stats st1) (occ_type oc) @ ex"
    using dedup_sections_grow[OF s1(2) inv1] by blast
  have r0: "resolves_content (occ_type oc) (content_block entry)
             (type_uniques (dd_type_stats st') (occ_type oc)) (occ_unique_idx oc)"
    unfolding ex by (rule resolves_content_append[OF oc(4)])
  have a: "length (oc # os) = length (entry # secs)" using os(1) by simp
  have b: "dd_occurrences st' = dd_occurrences st @ occurrences_of (entry # secs) (oc # os)"
    using os(2) oc(3) by (simp add: occurrences_of_Cons)
  have c: "\<forall>i<length (entry # secs).
               (\<exists>sti. dedup_sections st (take i (entry # secs)) = Inr sti \<and>
                      resolved_occurrence sti ((entry # secs) ! i) = Some ((oc # os) ! i)) \<and>
               section_type ((entry # secs) ! i) = Some (occ_type ((oc # os) ! i)) \<and>
               resolves_content (occ_type ((oc # os) ! i)) (content_block ((entry # secs) ! i))
                 (type_uniques (dd_type_stats st') (occ_type ((oc # os) ! i)))
                 (occ_unique_idx ((oc # os) ! i))"
  proof (intro allI impI)
    fix i assume i: "i < length (entry # secs)"
    show "(\<exists>sti. dedup_sections st (take i (entry # secs)) = Inr sti \<and>
                      resolved_occurrence sti ((entry # secs) ! i) = Some ((oc # os) ! i)) \<and>
               section_type ((entry # secs) ! i) = Some (occ_type ((oc # os) ! i)) \<and>
               resolves_content (occ_type ((oc # os) ! i)) (content_block ((entry # secs) ! i))
                 (type_uniques (dd_type_stats st') (occ_type ((oc # os) ! i)))
                 (occ_unique_idx ((oc # os) ! i))"
    proof (cases i)
      case 0
      then show ?thesis using oc(1,2) r0 by simp
    next
      case (Suc j)
      then have j: "j < length secs" using i by simp
      from os(3) j obtain stj where
        "dedup_sections st1 (take j secs) = Inr stj"
        "resolved_occurrence stj (secs ! j) = Some (os ! j)" by blast
      then have "\<exists>sti. dedup_sections st (take i (entry # secs)) = Inr sti \<and>
                      resolved_occurrence sti ((entry # secs) ! i) = Some ((oc # os) ! i)"
        using Suc s1(1) by simp
      then show ?thesis using os(3) j Suc by simp
    qed
  qed
  show ?case
    by (intro conjI exI[of _ "oc # os"] a b c k)
qed

lemma keys_inv_init: "keys_inv (dd_type_stats dedup_init)"
  by (simp add: keys_inv_def dedup_init_def type_uniques_def)

text \<open>
  Claim C2. When the body has at least one section header, the Flow field of the output
  is the flow tokens joined by a comma and a space, and there are as many tokens as the
  sum of the repeat counts of the collapsed sections. The occurrences are, section after
  section in reading order, \<open>repeat_count\<close> copies of the section's occurrence, and the
  tokens are the tokens of the occurrences in that order. The occurrence of the i-th
  section is the one the registry loop computes in the state reached after the sections
  before it; its index points, in the final registry of its type, at the unique content
  the section's collapsed content resolves to (the entry with the section's content key
  or, for a Chorus, the base it extends with nothing or the extension entry holding its
  suffix); outside Chorus the keys of a registry are distinct, so that this entry is the
  only one with the section's key.
\<close>

theorem flow_follows_occurrences:
  assumes "rebuild_parts tab artist_fb title_fb file_base = Inr r"
    and "0 < sp_headers_found (tab_split tab)"
  shows "\<exists>sb os. structure_body (tab_split tab) = Inr sb \<and>
           r_meta r ''Flow'' = str_join '', '' (s_tokens sb) \<and>
           length (s_tokens sb) = sum_list (map repeat_count (sp_sections (tab_split tab))) \<and>
           length os = length (sp_sections (tab_split tab)) \<and>
           (\<forall>i<length (sp_sections (tab_split tab)).
              (\<exists>sti. dedup_sections dedup_init (take i (sp_sections (tab_split tab))) = Inr sti \<and>
                     resolved_occurrence sti (sp_sections (tab_split tab) ! i) = Some (os ! i)) \<and>
              section_type (sp_sections (tab_split tab) ! i) = Some (occ_type (os ! i)) \<and>
              resolves_content (occ_type (os ! i)) (content_block (sp_sections (tab_split tab) ! i))
                (type_uniques (dd_type_stats (s_state sb)) (occ_type (os ! i)))
                (occ_unique_idx (os ! i))) \<and>
           keys_inv (dd_type_stats (s_state sb)) \<and>
           dd_occurrences (s_state sb) = occurrences_of (sp_sections (tab_split tab)) os \<and>
           s_tokens sb =
             map (occurrence_token (dd_type_stats (s_state sb))) (dd_occurrences (s_state sb))"
proof -
  let ?secs = "sp_sections (tab_split tab)"
  from structured_flow[OF assms] obtain sb os0 where f:
    "structure_body (tab_split tab) = Inr sb"
    "r_meta r ''Flow'' = str_join '', '' (s_tokens sb)"
    "s_tokens sb = map (occurrence_token (dd_type_stats (s_state sb))) (dd_occurrences (s_state sb))"
    "length (s_tokens sb) = sum_list (map repeat_count ?secs)"
    by (elim exE conjE)
  have d: "dedup_sections dedup_init ?secs = Inr (s_state sb)"
    by (rule structure_body_Inr_iff[OF f(1)])
  have inv: "dedup_inv dedup_init" by (simp add: dedup_init_def dedup_inv_init)
  from dedup_sections_resolution[OF d inv keys_inv_init] obtain os where os:
    "length os = length ?secs"
    "dd_occurrences (s_state sb) = dd_occurrences dedup_init @ occurrences_of ?secs os"
    "\<forall>i<length ?secs.
               (\<exists>sti. dedup_sections dedup_init (take i ?secs) = Inr sti \<and>
                      resolved_occurrence sti (?secs ! i) = Some (os ! i)) \<and>
               section_type (?secs ! i) = Some (occ_type (os ! i)) \<and>
               resolves_content (occ_type (os ! i)) (content_block (?secs ! i))
                 (type_uniques (dd_type_stats (s_state sb)) (occ_type (os ! i))) (occ_unique_idx (os ! i))"
    "keys_inv (dd_type_stats (s_state sb))"
    by (elim exE conjE)
  have oc: "dd_occurrences (s_state sb) = occurrences_of ?secs os"
    using os(2) by (simp add: dedup_init_def)
  show ?thesis
    by (rule exI[of _ sb], rule exI[of _ os]) (intro conjI f os(1) os(3) os(4) oc)
qed

theorem flow_follows_occurrences_witness:
  "0 < sp_headers_found (tab_split verses_and_solo) \<and>
   map repeat_count (sp_sections (tab_split verses_and_solo)) = [2, 1, 1, 1, 2] \<and>
   occurrences_field (structure_body (tab_split verses_and_solo)) =
     Some [(''Verse'', 1), (''Verse'', 1), (''Chorus'', 1), (''Verse'', 2), (''Chorus'', 2),
           (''Solo'', 1), (''Solo'', 1)] \<and>
   (\<exists>r. rebuild_parts verses_and_solo [] [] [] = Inr r \<and>
      r_meta r ''Flow'' = ''V1, V1, C1, V2, C2, Solo, Solo'' \<and>
      (\<exists>sb os. structure_body (tab_split verses_and_solo) = Inr sb \<and>
           r_meta r ''Flow'' = str_join '', '' (s_tokens sb) \<and>
           length (s_tokens sb) = sum_list (map repeat_count (sp_sections (tab_split verses_and_solo))) \<and>
           length os = length (sp_sections (tab_split verses_and_solo)) \<and>
           (\<forall>i<length (sp_sections (tab_split verses_and_solo)).
              (\<exists>sti. dedup_sections dedup_init (take i (sp_sections (tab_split verses_and_solo))) = Inr sti \<and>
                     resolved_occurrence sti (sp_sections (tab_split verses_and_solo) ! i) = Some (os ! i)) \<and>
              section_type (sp_sections (tab_split verses_and_solo) ! i) = Some (occ_type (os ! i)) \<and>
              resolves_content (occ_type (os ! i)) (content_block (sp_sections (tab_split verses_and_solo) ! i))
                (type_uniques (dd_type_stats (s_state sb)) (occ_type (os ! i)))
                (occ_unique_idx (os ! i))) \<and>
           keys_inv (dd_type_stats (s_state sb)) \<and>
           dd_occurrences (s_state sb) = occurrences_of (sp_sections (tab_split verses_and_solo)) os \<and>
           s_tokens sb =
             map (occurrence_token (dd_type_stats (s_state sb))) (dd_occurrences (s_state sb))))"
proof -
  have h: "0 < sp_headers_found (tab_split verses_and_solo)" by code_simp
  have rc: "map repeat_count (sp_sections (tab_split verses_and_solo)) = [2, 1, 1, 1, 2]"
    by code_simp
  have oc: "occurrences_field (structure_body (tab_split verses_and_solo)) =
     Some [(''Verse'', 1), (''Verse'', 1), (''Chorus'', 1), (''Verse'', 2), (''Chorus'', 2),
           (''Solo'', 1), (''Solo'', 1)]" by code_simp
  have "flow_field (rebuild_parts verses_and_solo [] [] []) = Some ''V1, V1, C1, V2, C2, Solo, Solo''"
    by code_simp
  then obtain r where r: "rebuild_parts verses_and_solo [] [] [] = Inr r"
    "r_meta r ''Flow'' = ''V1, V1, C1, V2, C2, Solo, Solo''" using flow_field_Some by blast
  note c = flow_follows_occurrences[OF r(1) h]
  show ?thesis
    by (intro conjI h rc oc exI[of _ r] r c)
qed

section \<open>Failure on a long header number\<close>

lemma str_split_nl_no_nl: "nl \<notin> set s \<Longrightarrow> str_split_nl s = [s]"
  by (induction s) auto

lemma str_split_nl_append:
  "nl \<notin> set a \<Longrightarrow> str_split_nl (a @ nl # b) = a # str_split_nl b"
  by (induction a) auto

lemma str_split_nl_join:
  "ls \<noteq> [] \<Longrightarrow> \<forall>l\<in>set ls. nl \<notin> set l \<Longrightarrow> str_split_nl (str_join [nl] ls) = ls"
proof (induction "[nl]" ls rule: str_join.induct)
  case 1
  then show ?case by simp
next
  case (2 x)
  then show ?case by (simp add: str_split_nl_no_nl)
next
  case (3 x y ys)
  then show ?case by (simp add: str_split_nl_append)
qed

lemma str_strip_id:
  assumes "s \<noteq> []" "\<not> is_space (hd s)" "\<not> is_space (last s)"
  shows "str_strip s = s"
proof -
  have "dropWhile is_space s = s" using assms(1,2) by (cases s) auto
  moreover have "dropWhile is_space (rev s) = rev s"
    using assms(1,3) by (cases "rev s") (auto simp: last_rev[symmetric] simp del: last_rev)
  ultimately show ?thesis by (simp add: str_strip_def str_lstrip_def str_rstrip_def)
qed

lemma one_is_digit: "is_digit (CHR ''1'')" "\<not> is_space (CHR ''1'')" "is_label_chr (CHR ''1'')"
  "CHR ''1'' \<noteq> nl"
  by code_simp+

lemma V_facts: "\<not> is_space (CHR ''V'')" "is_alpha (CHR ''V'')" "CHR ''V'' \<noteq> nl"
  "is_space (CHR '' '')" "is_label_chr (CHR '' '')" "\<not> is_digit (CHR '' '')" "CHR '' '' \<noteq> nl"
  "\<not> is_label_chr (CHR '':'')" "\<not> is_space (CHR '':'')" "CHR '':'' \<noteq> nl"
  by code_simp+

lemma parse_long_number:
  assumes "int_max_str_digits < n"
  shows "parse_section_header (''V '' @ replicate n (CHR ''1'')) = Inl ValueError"
proof -
  let ?d = "replicate n (CHR ''1'')"
  have n: "0 < n" using assms by simp
  then have dne: "?d \<noteq> []" by simp
  have ld: "last (''V '' @ ?d) = CHR ''1''" using n by (simp add: last_append)
  have st: "str_strip (''V '' @ ?d) = ''V '' @ ?d"
    by (rule str_strip_id) (use n in \<open>simp_all add: ld V_facts one_is_digit del: last_append\<close>)
  have t1: "tail_number (''V '' @ ?d) = None" by (simp add: tail_number_def V_facts)
  have hd1: "hd (?d) = CHR ''1''" using n by (cases n) simp_all
  have tw: "takeWhile is_space (CHR '' '' # ?d) = '' ''"
    by (simp add: V_facts one_is_digit)
  have dw: "dropWhile is_space (CHR '' '' # ?d) = ?d"
    by (simp add: V_facts one_is_digit)
  have t2: "tail_number (CHR '' '' # ?d) = Some ?d"
    using dne by (simp add: tail_number_def V_facts one_is_digit Let_def)
  have m: "header_number_match [] (''V '' @ ?d) = Some (''V'', Some ?d)"
    using t1 t2 by (simp add: V_facts)
  have "py_int ?d = Inl ValueError" using assms by (simp add: py_int_def)
  then show ?thesis
    using st[simplified] m[simplified] by (simp add: parse_section_header_def Let_def)
qed

lemma header_match_long_number:
  "header_match (''V '' @ replicate n (CHR ''1'') @ '':'') = Some (''V '' @ replicate n (CHR ''1''))"
proof -
  let ?d = "replicate n (CHR ''1'')"
  have a: "\<And>x. x \<in> set (CHR '' '' # ?d) \<Longrightarrow> is_label_chr x"
    by (auto simp: V_facts one_is_digit)
  have tw: "takeWhile is_label_chr ((CHR '' '' # ?d) @ '':'') = CHR '' '' # ?d"
    using takeWhile_append2[of "CHR '' '' # ?d" is_label_chr "'':''", OF a]
    by (simp add: V_facts)
  have dw: "dropWhile is_label_chr ((CHR '' '' # ?d) @ '':'') = '':''"
    using dropWhile_append2[of "CHR '' '' # ?d" is_label_chr "'':''", OF a]
    by (simp add: V_facts)
  have "header_match (CHR ''V'' # (CHR '' '' # ?d) @ '':'') = Some (CHR ''V'' # CHR '' '' # ?d)"
    unfolding header_match_def list.case Let_def tw dw by (simp add: V_facts)
  then show ?thesis by simp
qed

lemma strip_long_number:
  "str_strip (''V '' @ replicate n (CHR ''1'') @ '':'') = ''V '' @ replicate n (CHR ''1'') @ '':''"
  by (rule str_strip_id) (simp_all add: V_facts)

lemma strip_long_label:
  assumes "0 < n"
  shows "str_strip (''V '' @ replicate n (CHR ''1'')) = ''V '' @ replicate n (CHR ''1'')"
proof -
  have "last (''V '' @ replicate n (CHR ''1'')) = CHR ''1''" using assms by (simp add: last_append)
  then show ?thesis
    by (intro str_strip_id) (simp_all add: V_facts one_is_digit del: last_append)
qed

lemma split_sections_long_number:
  assumes "0 < n"
  shows "split_sections (''V '' @ replicate n (CHR ''1'') @ '':'') =
     \<lparr>sp_sections = [\<lparr>sec_header = ''V '' @ replicate n (CHR ''1''), sec_lines = []\<rparr>],
      sp_leading_lines = [], sp_current_header = Some (''V '' @ replicate n (CHR ''1'')),
      sp_current_lines = [], sp_headers_found = 1\<rparr>"
proof -
  let ?h = "''V '' @ replicate n (CHR ''1'') @ '':''"
  have "nl \<notin> set ?h" using V_facts one_is_digit by auto
  then have sp: "str_split_nl ?h = [?h]" by (rule str_split_nl_no_nl)
  show ?thesis
    unfolding split_sections_def sp
    by (simp add: split_line_def strip_long_number[simplified] header_match_long_number[simplified]
        strip_long_label[OF assms, simplified] Let_def)
qed

lemma meta_key_lines:
  "default_meta (read_meta [''Song'', ''Band'', ''Key: C'', [], [], [], [], [], [], [], h]) ''Key'' = ''C''"
  by code_simp

lemma body_of_lines:
  "body_of [''Song'', ''Band'', ''Key: C'', [], [], [], [], [], [], [], CHR ''V'' # h] = CHR ''V'' # h"
  by code_simp

lemma rebuild_parts_Inl:
  assumes "0 < sp_headers_found (split_sections (body_of (str_split_nl tab)))"
    and "default_meta (read_meta (str_split_nl tab)) ''Key'' \<noteq> []"
    and "structure_body (split_sections (body_of (str_split_nl tab))) = Inl e"
  shows "rebuild_parts tab artist_fb title_fb file_base = Inl e"
  using assms unfolding rebuild_parts_def Let_def
  by (simp split: prod.splits)

lemma split_long_number_tab:
  "str_split_nl (long_number_tab n) =
     [''Song'', ''Band'', ''Key: C'', [], [], [], [], [], [], [],
      ''V '' @ replicate n (CHR ''1'') @ '':'']"
proof -
  have c: "nl \<notin> set ''Song''" "nl \<notin> set ''Band''" "nl \<notin> set ''Key: C''" by code_simp+
  have h: "nl \<notin> set (''V '' @ replicate n (CHR ''1'') @ '':'')"
    using V_facts one_is_digit by auto
  show ?thesis
    unfolding long_number_tab_def tab_of_lines_def
    by (rule str_split_nl_join) (use c h in auto)
qed

lemma structure_body_long_number:
  assumes "int_max_str_digits < n"
  shows "structure_body (split_sections (''V '' @ replicate n (CHR ''1'') @ '':'')) = Inl ValueError"
proof -
  have n: "0 < n" using assms by simp
  show ?thesis
    unfolding split_sections_long_number[OF n] structure_body_def
    by (simp add: dedup_section_def parse_long_number[OF assms, simplified])
qed

lemma rebuild_long_number:
  assumes "int_max_str_digits < n"
  shows "rebuild_formatted_tab (long_number_tab n) artist_fb title_fb file_base = Inl ValueError"
proof -
  have n: "0 < n" using assms by simp
  let ?h = "''V '' @ replicate n (CHR ''1'') @ '':''"
  have b: "body_of (str_split_nl (long_number_tab n)) = ?h"
    unfolding split_long_number_tab using body_of_lines[of "CHR '' '' # replicate n (CHR ''1'') @ '':''"]
    by simp
  have k: "default_meta (read_meta (str_split_nl (long_number_tab n))) ''Key'' \<noteq> []"
    unfolding split_long_number_tab meta_key_lines by simp
  have hf: "0 < sp_headers_found (split_sections (body_of (str_split_nl (long_number_tab n))))"
    unfolding b split_sections_long_number[OF n] by simp
  have sb: "structure_body (split_sections (body_of (str_split_nl (long_number_tab n)))) = Inl ValueError"
    unfolding b by (rule structure_body_long_number[OF assms])
  have "rebuild_parts (long_number_tab n) artist_fb title_fb file_base = Inl ValueError"
    by (rule rebuild_parts_Inl[OF hf k sb])
  then show ?thesis by (simp add: rebuild_formatted_tab_def)
qed

lemma detect_key_returns: "\<exists>k. detect_key body = Inr k"
proof (cases "chord_matches body = []")
  case True
  then show ?thesis using detect_key_empty by blast
next
  case False
  then show ?thesis using detect_key_nonempty by blast
qed

lemma dedup_sections_succeeds:
  assumes "\<forall>e\<in>set secs. \<exists>res. parse_section_header (sec_header e) = Inr res"
  shows "\<exists>st'. dedup_sections st secs = Inr st'"
  using assms
proof (induction secs arbitrary: st)
  case Nil
  then show ?case by simp
next
  case (Cons e secs)
  then obtain res where "parse_section_header (sec_header e) = Inr res" by auto
  moreover obtain t p n where "res = (t, p, n)" by (cases res)
  ultimately have p: "parse_section_header (sec_header e) = Inr (t, p, n)" by simp
  obtain found us1 ext where "match_of st e t p = (found, us1, ext)" by (cases "match_of st e t p")
  from dedup_section_step[OF p this] obtain st1 where "dedup_section st e = Inr st1" by blast
  moreover obtain st' where "dedup_sections st1 secs = Inr st'" using Cons by auto
  ultimately show ?case by simp
qed

lemma rebuild_returns_when_headers_parse:
  assumes "\<forall>e\<in>set (sp_sections (tab_split tab)). \<exists>res. parse_section_header (sec_header e) = Inr res"
  shows "\<exists>out. rebuild_formatted_tab tab artist_fb title_fb file_base = Inr out"
proof -
  obtain st where "dedup_sections dedup_init (sp_sections (tab_split tab)) = Inr st"
    using dedup_sections_succeeds[OF assms] by blast
  then obtain sb where sb: "structure_body (tab_split tab) = Inr sb"
    using structure_body_Inr by blast
  obtain k where k: "detect_key (tab_body tab) = Inr k" using detect_key_returns by blast
  define ls where "ls = str_split_nl tab"
  have sb': "structure_body (split_sections (body_of ls)) = Inr sb"
    using sb by (simp add: tab_split_def tab_body_def ls_def)
  have k': "detect_key (body_of ls) = Inr k"
    using k by (simp add: tab_body_def ls_def)
  obtain fa ft where f: "file_artist_title file_base = (fa, ft)"
    by (cases "file_artist_title file_base")
  have "\<exists>r. rebuild_parts tab artist_fb title_fb file_base = Inr r"
    unfolding rebuild_parts_def ls_def[symmetric] Let_def f prod.case sb' k' sum.case
    by (simp only: if_distrib[of "case_sum Inl _"] sum.case if_cancel split: if_splits) auto
  then show ?thesis by (auto simp: rebuild_formatted_tab_def)
qed

text \<open>
  Claim C7. The transformation is not total. The number at the end of a section header
  is converted with \<open>int\<close>, which raises \<open>ValueError\<close> on more than 4300 digits; on the tab
  whose only section header is V followed by 4301 digits the transformation raises
  instead of returning a string, whatever the fallbacks are.
\<close>

theorem rebuild_raises_on_long_number:
  "rebuild_formatted_tab (long_number_tab 4301) artist_fb title_fb file_base = Inl ValueError"
  by (rule rebuild_long_number) (simp add: int_max_str_digits_def)

text \<open>
  Claim C10. With \<open>TAB_CONTENT\<close> set to the non-empty tab whose only section header is V
  followed by 4301 digits, \<open>main\<close> neither writes a rebuilt tab nor returns the status 0:
  the \<open>ValueError\<close> of the transformation is not caught and ends the process.
\<close>

theorem main_raises_on_long_number:
  "environ_get [''TAB_CONTENT'' \<mapsto> long_number_tab 4301] ''TAB_CONTENT'' [] \<noteq> [] \<and>
   main [''TAB_CONTENT'' \<mapsto> long_number_tab 4301] = Inl ValueError"
proof -
  have ne: "long_number_tab 4301 \<noteq> []"
    by (simp add: long_number_tab_def tab_of_lines_def)
  have r: "rebuild_formatted_tab (long_number_tab 4301) [] [] [] = Inl ValueError"
    by (rule rebuild_long_number) (simp add: int_max_str_digits_def)
  have e: "environ_get [''TAB_CONTENT'' \<mapsto> long_number_tab 4301] ''TAB_CONTENT'' [] =
      long_number_tab 4301" by (simp add: environ_get_def)
  have o: "environ_get [''TAB_CONTENT'' \<mapsto> long_number_tab 4301] ''ARTIST_FB'' [] = []"
    "environ_get [''TAB_CONTENT'' \<mapsto> long_number_tab 4301] ''TITLE_FB'' [] = []"
    "environ_get [''TAB_CONTENT'' \<mapsto> long_number_tab 4301] ''FILE_BASE'' [] = []"
    by (simp_all add: environ_get_def)
  have "main [''TAB_CONTENT'' \<mapsto> long_number_tab 4301] = Inl ValueError"
    unfolding main_def Let_def e o using ne r by simp
  then show ?thesis using e ne by simp
qed

(*THMS-END*)

end
